theory Spec2Isabelle
  imports Main "HOL-Library.Word"
begin

section \<open>JavaScript strings and Buffers\<close>

text \<open>
  A JavaScript string is a sequence of 16-bit UTF-16 code units; a \<^verbatim>\<open>Buffer\<close>
  (the \<^verbatim>\<open>Bytes\<close> of leveldown) is a sequence of bytes. \<^verbatim>\<open>Buffer.from(string)\<close>
  encodes the string as UTF-8 and \<^verbatim>\<open>buffer.toString()\<close> decodes UTF-8; both are
  functions of the platform that \<^verbatim>\<open>storage.ts\<close> calls, written out here.
\<close>

type_synonym byte = "8 word"
type_synonym code_unit = "16 word"
type_synonym jsstring = "code_unit list"
type_synonym Bytes = "byte list"

text \<open>An ASCII literal as a JavaScript string.\<close>

definition str :: "string \<Rightarrow> jsstring" where
  "str s = map (\<lambda>c. of_nat (of_char c)) s"

definition is_high :: "code_unit \<Rightarrow> bool" where
  "is_high u = (0xD800 \<le> u \<and> u \<le> 0xDBFF)"

definition is_low :: "code_unit \<Rightarrow> bool" where
  "is_low u = (0xDC00 \<le> u \<and> u \<le> 0xDFFF)"

text \<open>The code point of a surrogate pair.\<close>

definition pair_cp :: "code_unit \<Rightarrow> code_unit \<Rightarrow> nat" where
  "pair_cp h l = 0x10000 + (unat h - 0xD800) * 0x400 + (unat l - 0xDC00)"

text \<open>A number below 256 as a byte, a number below 65536 as a code unit.\<close>

definition byte_of :: "nat \<Rightarrow> byte" where
  "byte_of n = of_nat n"

definition unit_of :: "nat \<Rightarrow> code_unit" where
  "unit_of n = of_nat n"

text \<open>The UTF-8 encoding of one code point.\<close>

definition utf8_bytes :: "nat \<Rightarrow> Bytes" where
  "utf8_bytes c =
     (if c < 0x80 then [byte_of c]
      else if c < 0x800 then [byte_of (0xC0 + c div 0x40), byte_of (0x80 + c mod 0x40)]
      else if c < 0x10000 then
        [byte_of (0xE0 + c div 0x1000), byte_of (0x80 + c div 0x40 mod 0x40),
         byte_of (0x80 + c mod 0x40)]
      else
        [byte_of (0xF0 + c div 0x40000), byte_of (0x80 + c div 0x1000 mod 0x40),
         byte_of (0x80 + c div 0x40 mod 0x40), byte_of (0x80 + c mod 0x40)])"

text \<open>U+FFFD, the replacement character, in UTF-8: \<^verbatim>\<open>EF BF BD\<close>.\<close>

definition replacement_bytes :: Bytes where
  "replacement_bytes = [0xEF, 0xBF, 0xBD]"

text \<open>
  \<^verbatim>\<open>Buffer.from(s)\<close>: a surrogate pair is one code point of four bytes, an unpaired
  surrogate is encoded as U+FFFD, every other code unit is its own code point.
\<close>

fun Buffer_from :: "jsstring \<Rightarrow> Bytes" where
  "Buffer_from [] = []"
| "Buffer_from [u] =
     (if is_high u \<or> is_low u then replacement_bytes else utf8_bytes (unat u))"
| "Buffer_from (u # v # us) =
     (if is_high u \<and> is_low v then utf8_bytes (pair_cp u v) @ Buffer_from us
      else if is_high u \<or> is_low u then replacement_bytes @ Buffer_from (v # us)
      else utf8_bytes (unat u) @ Buffer_from (v # us))"

text \<open>A continuation byte within the bounds \<open>lo\<close> and \<open>hi\<close>.\<close>

definition cont :: "nat \<Rightarrow> nat \<Rightarrow> byte \<Rightarrow> bool" where
  "cont lo hi b = (lo \<le> unat b \<and> unat b \<le> hi)"

text \<open>
  UTF-8 decoding of one code point: the lead byte \<open>b\<close> and the bytes \<open>bs\<close> after it give
  the code point and the number of bytes of \<open>bs\<close> that belong to it. An ill-formed
  sequence gives U+FFFD for its longest prefix that starts a well-formed sequence. The
  bounds of the first continuation byte exclude overlong encodings (after \<^verbatim>\<open>E0\<close>,
  \<^verbatim>\<open>F0\<close>), surrogates (after \<^verbatim>\<open>ED\<close>) and code points beyond U+10FFFF (after
  \<^verbatim>\<open>F4\<close>).
\<close>

definition decode2 :: "nat \<Rightarrow> Bytes \<Rightarrow> nat \<times> nat" where
  "decode2 n bs =
     (case bs of
        c1 # _ \<Rightarrow>
          if cont 0x80 0xBF c1 then ((n - 0xC0) * 0x40 + (unat c1 - 0x80), 1)
          else (0xFFFD, 0)
      | [] \<Rightarrow> (0xFFFD, 0))"

definition decode3 :: "nat \<Rightarrow> Bytes \<Rightarrow> nat \<times> nat" where
  "decode3 n bs =
     (case bs of
        c1 # c2 # _ \<Rightarrow>
          if cont (if n = 0xE0 then 0xA0 else 0x80) (if n = 0xED then 0x9F else 0xBF) c1
          then if cont 0x80 0xBF c2
               then ((n - 0xE0) * 0x1000 + (unat c1 - 0x80) * 0x40 + (unat c2 - 0x80), 2)
               else (0xFFFD, 1)
          else (0xFFFD, 0)
      | [c1] \<Rightarrow>
          if cont (if n = 0xE0 then 0xA0 else 0x80) (if n = 0xED then 0x9F else 0xBF) c1
          then (0xFFFD, 1) else (0xFFFD, 0)
      | [] \<Rightarrow> (0xFFFD, 0))"

definition decode4 :: "nat \<Rightarrow> Bytes \<Rightarrow> nat \<times> nat" where
  "decode4 n bs =
     (case bs of
        c1 # c2 # c3 # _ \<Rightarrow>
          if cont (if n = 0xF0 then 0x90 else 0x80) (if n = 0xF4 then 0x8F else 0xBF) c1
          then if cont 0x80 0xBF c2
               then if cont 0x80 0xBF c3
                    then ((n - 0xF0) * 0x40000 + (unat c1 - 0x80) * 0x1000
                            + (unat c2 - 0x80) * 0x40 + (unat c3 - 0x80), 3)
                    else (0xFFFD, 2)
               else (0xFFFD, 1)
          else (0xFFFD, 0)
      | [c1, c2] \<Rightarrow>
          if cont (if n = 0xF0 then 0x90 else 0x80) (if n = 0xF4 then 0x8F else 0xBF) c1
          then if cont 0x80 0xBF c2 then (0xFFFD, 2) else (0xFFFD, 1)
          else (0xFFFD, 0)
      | [c1] \<Rightarrow>
          if cont (if n = 0xF0 then 0x90 else 0x80) (if n = 0xF4 then 0x8F else 0xBF) c1
          then (0xFFFD, 1) else (0xFFFD, 0)
      | [] \<Rightarrow> (0xFFFD, 0))"

definition decode1 :: "byte \<Rightarrow> Bytes \<Rightarrow> nat \<times> nat" where
  "decode1 b bs =
     (let n = unat b in
      if n < 0x80 then (n, 0)
      else if 0xC2 \<le> n \<and> n \<le> 0xDF then decode2 n bs
      else if 0xE0 \<le> n \<and> n \<le> 0xEF then decode3 n bs
      else if 0xF0 \<le> n \<and> n \<le> 0xF4 then decode4 n bs
      else (0xFFFD, 0))"

text \<open>UTF-8 decoding of a byte sequence to code points.\<close>

function utf8_decode :: "Bytes \<Rightarrow> nat list" where
  "utf8_decode [] = []"
| "utf8_decode (b # bs) = (case decode1 b bs of (c, k) \<Rightarrow> c # utf8_decode (drop k bs))"
  by pat_completeness auto
termination
  by (relation "measure length") auto

text \<open>
  The byte \<open>b\<close> starts a UTF-8 sequence of several bytes, and the first of the bytes
  \<open>bs\<close> after it is accepted as its continuation.
\<close>

definition first_cont :: "nat \<Rightarrow> nat \<Rightarrow> Bytes \<Rightarrow> bool" where
  "first_cont lo hi bs = (case bs of [] \<Rightarrow> False | c1 # _ \<Rightarrow> cont lo hi c1)"

definition continued :: "byte \<Rightarrow> Bytes \<Rightarrow> bool" where
  "continued b bs =
     (let n = unat b in
      (0xC2 \<le> n \<and> n \<le> 0xDF \<and> first_cont 0x80 0xBF bs)
      \<or> (0xE0 \<le> n \<and> n \<le> 0xEF
          \<and> first_cont (if n = 0xE0 then 0xA0 else 0x80) (if n = 0xED then 0x9F else 0xBF) bs)
      \<or> (0xF0 \<le> n \<and> n \<le> 0xF4
          \<and> first_cont (if n = 0xF0 then 0x90 else 0x80) (if n = 0xF4 then 0x8F else 0xBF) bs))"

text \<open>The UTF-16 code units of one code point.\<close>

definition utf16_units :: "nat \<Rightarrow> jsstring" where
  "utf16_units c =
     (if c < 0x10000 then [unit_of c]
      else [unit_of (0xD800 + (c - 0x10000) div 0x400),
            unit_of (0xDC00 + (c - 0x10000) mod 0x400)])"

text \<open>\<^verbatim>\<open>buffer.toString()\<close>.\<close>

definition toString :: "Bytes \<Rightarrow> jsstring" where
  "toString bs = concat (map utf16_units (utf8_decode bs))"

text \<open>\<^verbatim>\<open>s.slice(1)\<close>: the string without its first code unit.\<close>

definition slice1 :: "jsstring \<Rightarrow> jsstring" where
  "slice1 s = drop 1 s"

text \<open>
  \<^verbatim>\<open>s.split(sep)\<close>: \<open>split_from sep cur s\<close> scans \<open>s\<close> from the left with the piece
  \<open>cur\<close> collected since the last match; at a match of \<open>sep\<close> the piece is closed and
  the scan resumes after the match. An empty separator splits between all code units.
\<close>

function split_from :: "jsstring \<Rightarrow> jsstring \<Rightarrow> jsstring \<Rightarrow> jsstring list" where
  "split_from sep cur [] = [cur]"
| "split_from sep cur (x # xs) =
     (if sep \<noteq> [] \<and> take (length sep) (x # xs) = sep
      then cur # split_from sep [] (drop (length sep) (x # xs))
      else split_from sep (cur @ [x]) xs)"
  by pat_completeness auto
termination
  by (relation "measure (\<lambda>(sep, cur, s). length s)") auto

definition split :: "jsstring \<Rightarrow> jsstring \<Rightarrow> jsstring list" where
  "split s sep = (if sep = [] then map (\<lambda>u. [u]) s else split_from sep [] s)"

text \<open>\<^verbatim>\<open>s.includes(sep)\<close>, for strings and for Buffers: \<open>sep\<close> occurs in \<open>s\<close>.\<close>

fun includes_js :: "'a list \<Rightarrow> 'a list \<Rightarrow> bool" where
  "includes_js [] sep = (sep = [])"
| "includes_js (x # xs) sep = (take (length sep) (x # xs) = sep \<or> includes_js xs sep)"

text \<open>A string without unpaired surrogates: the strings that UTF-8 can represent.\<close>

fun well_formed :: "jsstring \<Rightarrow> bool" where
  "well_formed [] = True"
| "well_formed [u] = (\<not> is_high u \<and> \<not> is_low u)"
| "well_formed (u # v # us) =
     (if is_high u then is_low v \<and> well_formed us
      else \<not> is_low u \<and> well_formed (v # us))"

text \<open>
  \<^verbatim>\<open>s.toWellFormed()\<close>: the string with U+FFFD in the place of every unpaired
  surrogate.
\<close>

fun toWellFormed :: "jsstring \<Rightarrow> jsstring" where
  "toWellFormed [] = []"
| "toWellFormed [u] = (if is_high u \<or> is_low u then [0xFFFD] else [u])"
| "toWellFormed (u # v # us) =
     (if is_high u \<and> is_low v then u # v # toWellFormed us
      else if is_high u \<or> is_low u then 0xFFFD # toWellFormed (v # us)
      else u # toWellFormed (v # us))"

text \<open>A Unicode scalar value: a code point that is not a surrogate.\<close>

definition scalar :: "nat \<Rightarrow> bool" where
  "scalar c = (c < 0x110000 \<and> \<not> (0xD800 \<le> c \<and> c \<le> 0xDFFF))"

section \<open>The key codec of \<^verbatim>\<open>storage.ts\<close>\<close>

text \<open>\<^verbatim>\<open>const hostKeySeparator = "\u0000\u0001"\<close>\<close>

definition hostKeySeparator :: jsstring where
  "hostKeySeparator = [0, 1]"

text \<open>
  The fields of the object returned by \<^verbatim>\<open>urllib.parse\<close> that \<^verbatim>\<open>keyFromUrl\<close> reads.
  Either is \<^verbatim>\<open>null\<close> (\<open>None\<close>) when the URL has no such part; \<^verbatim>\<open>protocol\<close> ends
  with its colon, as in \<^verbatim>\<open>"https:"\<close>. The parser is Node's and is a parameter of the
  functions below: a function from the URL to the object it returns, or to the error it
  throws.
\<close>

record UrlObject =
  protocol :: "jsstring option"
  host :: "jsstring option"

text \<open>
  The errors that reach a caller: \<^verbatim>\<open>new Error(msg)\<close> thrown by \<^verbatim>\<open>keyFromUrl\<close>
  (the spec's InvalidInput), the errors that \<^verbatim>\<open>urllib.parse\<close> throws (a
  \<^verbatim>\<open>URIError\<close> or a \<^verbatim>\<open>TypeError\<close>), the \<^verbatim>\<open>NotFoundError\<close> of \<^verbatim>\<open>db.get\<close>
  (NotFound), and any other error reported by the store (StoreUnavailable).
\<close>

datatype error =
  Error string | URIError string | TypeError string | NotFoundError | StoreError string

type_synonym url_parser = "jsstring \<Rightarrow> error + UrlObject"

text \<open>A string-valued expression used as a condition: \<^verbatim>\<open>undefined\<close>, \<^verbatim>\<open>null\<close> and \<^verbatim>\<open>""\<close> are falsy.\<close>

definition truthy :: "jsstring option \<Rightarrow> bool" where
  "truthy s = (case s of None \<Rightarrow> False | Some v \<Rightarrow> v \<noteq> [])"

text \<open>
  \<^verbatim>\<open>function keyFromUrl(url, key?, separator = hostKeySeparator)\<close>. An argument left
  out is \<open>None\<close>. An error thrown by \<^verbatim>\<open>urllib.parse(url)\<close> is not caught.
\<close>

definition keyFromUrl ::
  "url_parser \<Rightarrow> jsstring \<Rightarrow> jsstring option \<Rightarrow> jsstring option \<Rightarrow> error + Bytes"
where
  "keyFromUrl parse url key separator =
     (let sep = (case separator of None \<Rightarrow> hostKeySeparator | Some s \<Rightarrow> s);
          suffix = (case key of None \<Rightarrow> [] | Some k \<Rightarrow> if truthy key then sep @ k else [])
      in case parse url of
           Inl e \<Rightarrow> Inl e
         | Inr parsed \<Rightarrow>
             (case host parsed of
                None \<Rightarrow> Inl (Error ''host is required'')
              | Some h \<Rightarrow>
                  if \<not> truthy (host parsed) then Inl (Error ''host is required'')
                  else
                    let p = (case protocol parsed of
                               None \<Rightarrow> str ''https:''
                             | Some q \<Rightarrow>
                                 if \<not> truthy (protocol parsed) then str ''https:'' else q)
                    in Inr (Buffer_from (str ''_'' @ p @ str ''//'' @ h @ suffix))))"

text \<open>
  The parts of the string that \<^verbatim>\<open>keyFromUrl\<close> assembles, named for the statements
  below: the protocol after \<^verbatim>\<open>if (!protocol) protocol = "https:"\<close>, the origin
  \<^verbatim>\<open>`_${protocol}//${host}`\<close>, and \<^verbatim>\<open>suffix\<close>.
\<close>

definition effective_protocol :: "UrlObject \<Rightarrow> jsstring" where
  "effective_protocol parsed =
     (case protocol parsed of
        None \<Rightarrow> str ''https:''
      | Some q \<Rightarrow> if q = [] then str ''https:'' else q)"

definition origin :: "UrlObject \<Rightarrow> jsstring" where
  "origin parsed =
     str ''_'' @ effective_protocol parsed @ str ''//''
       @ (case host parsed of None \<Rightarrow> [] | Some h \<Rightarrow> h)"

definition suffix_of :: "jsstring option \<Rightarrow> jsstring option \<Rightarrow> jsstring" where
  "suffix_of key separator =
     (case key of
        None \<Rightarrow> []
      | Some k \<Rightarrow>
          if k = [] then []
          else (case separator of None \<Rightarrow> hostKeySeparator | Some s \<Rightarrow> s) @ k)"

text \<open>
  What the statements below assume of a parsed URL, where they say so: its protocol and
  host have no unpaired surrogate and neither NUL nor SOH (the spec's invariant of a
  store key: the separator bytes never appear inside the scheme and host portion), and
  the protocol has no \<^verbatim>\<open>/\<close>.
\<close>

definition parsed_ok :: "UrlObject \<Rightarrow> bool" where
  "parsed_ok parsed =
     (well_formed (origin parsed) \<and> (\<forall>u\<in>set (origin parsed). 1 < u)
      \<and> 0x2F \<notin> set (effective_protocol parsed))"

text \<open>\<^verbatim>\<open>function unpackValue(v) { return v.toString().slice(1); }\<close>\<close>

definition unpackValue :: "Bytes \<Rightarrow> jsstring" where
  "unpackValue v = slice1 (toString v)"

text \<open>
  \<^verbatim>\<open>const [ , actualKey ] = key.toString().split(hostKeySeparator)\<close> in \<^verbatim>\<open>readAll\<close>:
  the second piece, or \<^verbatim>\<open>undefined\<close> (\<open>None\<close>) when there is one piece only.
\<close>

definition actualKey :: "Bytes \<Rightarrow> jsstring option" where
  "actualKey key =
     (case split (toString key) hostKeySeparator of
        _ # k # _ \<Rightarrow> Some k
      | _ \<Rightarrow> None)"

section \<open>The store\<close>

text \<open>
  What \<^verbatim>\<open>storage.ts\<close> sees of the store behind a LevelUp handle: its records, and
  the errors that its calls may report (a failing read in \<^verbatim>\<open>get\<close>, a failing
  \<^verbatim>\<open>iterator\<close> call, an error at the \<open>i\<close>-th call of \<^verbatim>\<open>iterator.next\<close>, an error of
  \<^verbatim>\<open>iterator.end\<close>, an error of \<^verbatim>\<open>close\<close>, with which the store stays open). The store
  holds one value for a key: where \<open>entries\<close> names a key more than once, the value is
  that of the first record of the key.
\<close>

record Database =
  entries :: "(Bytes \<times> Bytes) list"
  get_error :: "error option"
  iterator_error :: "error option"
  next_error :: "(nat \<times> error) option"
  end_error :: "error option"
  close_error :: "error option"

text \<open>
  The order of keys in the store: bytes compared as unsigned numbers from the left, a
  proper prefix before its extensions.
\<close>

fun bytewise_le :: "Bytes \<Rightarrow> Bytes \<Rightarrow> bool" where
  "bytewise_le [] ys = True"
| "bytewise_le (x # xs) [] = False"
| "bytewise_le (x # xs) (y # ys) = (x < y \<or> (x = y \<and> bytewise_le xs ys))"

text \<open>The keys of a scan from \<open>gte\<close> to \<open>lte\<close>, both inclusive.\<close>

definition in_scan_range :: "Bytes \<Rightarrow> Bytes \<Rightarrow> Bytes \<Rightarrow> bool" where
  "in_scan_range gte lte k = (bytewise_le gte k \<and> bytewise_le k lte)"

text \<open>\<^verbatim>\<open>db.get(key)\<close>: the value, or \<^verbatim>\<open>NotFoundError\<close>.\<close>

definition db_get :: "Database \<Rightarrow> Bytes \<Rightarrow> error + Bytes" where
  "db_get db k =
     (case get_error db of
        Some e \<Rightarrow> Inl e
      | None \<Rightarrow> (case map_of (entries db) k of None \<Rightarrow> Inl NotFoundError | Some v \<Rightarrow> Inr v))"

text \<open>
  The records of the store in ascending order of their keys, one record for a key:
  \<open>put_row\<close> puts a record into a list in that order, in the place of the record of
  the same key if there is one.
\<close>

fun put_row :: "Bytes \<times> Bytes \<Rightarrow> (Bytes \<times> Bytes) list \<Rightarrow> (Bytes \<times> Bytes) list" where
  "put_row r [] = [r]"
| "put_row r (r' # rs) =
     (if fst r = fst r' then r # rs
      else if bytewise_le (fst r) (fst r') then r # r' # rs
      else r' # put_row r rs)"

definition sorted_rows :: "(Bytes \<times> Bytes) list \<Rightarrow> (Bytes \<times> Bytes) list" where
  "sorted_rows es = foldr put_row es []"

text \<open>
  \<^verbatim>\<open>db.iterator({gte, lte})\<close>, as the results of its successive \<^verbatim>\<open>next\<close> calls: the
  records with \<open>gte \<le> key \<le> lte\<close> in ascending order of their keys, then the end
  (the list is exhausted); an error of the store cuts the sequence.
\<close>

definition db_iterator :: "Database \<Rightarrow> Bytes \<Rightarrow> Bytes \<Rightarrow> (error + Bytes \<times> Bytes) list" where
  "db_iterator db gte lte =
     (let rows =
        map Inr (filter (\<lambda>(k, v). in_scan_range gte lte k) (sorted_rows (entries db)))
      in case next_error db of
           None \<Rightarrow> rows
         | Some (i, e) \<Rightarrow> take i rows @ [Inl e])"

section \<open>The store reader of \<^verbatim>\<open>storage.ts\<close>\<close>

text \<open>An item yielded by \<^verbatim>\<open>readAll\<close>: \<^verbatim>\<open>{ key: actualKey, value: unpackValue(value) }\<close>.\<close>

record KeyValue =
  item_key :: "jsstring option"
  item_value :: jsstring

text \<open>The calls on the store and the items handed to the caller, in the order they happen.\<close>

datatype event =
  OpenDb | DbGet Bytes | DbIterator Bytes Bytes | IteratorNext | IteratorEnd | DbClose
  | Yield KeyValue

text \<open>A computation: its result and the events it caused, all of them before the result.\<close>

type_synonym 'a io = "(error + 'a) \<times> event list"

text \<open>
  \<^verbatim>\<open>try { body } finally { db.close(); }\<close>: the call of \<^verbatim>\<open>close\<close>. The promise it
  returns is dropped: the block does not wait for the store to be closed, and an error
  of \<^verbatim>\<open>close\<close> does not reach the caller.
\<close>

definition try_finally_close :: "'a io \<Rightarrow> 'a io" where
  "try_finally_close body = (fst body, snd body @ [DbClose])"

text \<open>
  \<^verbatim>\<open>LocalStorageExtractor.read(url, key)\<close>. \<open>openDb\<close> is the outcome of
  \<^verbatim>\<open>this.openDb()\<close>.
\<close>

definition read ::
  "error + Database \<Rightarrow> url_parser \<Rightarrow> jsstring \<Rightarrow> jsstring \<Rightarrow> jsstring io"
where
  "read openDb parse url key =
     (case openDb of
        Inl e \<Rightarrow> (Inl e, [])
      | Inr db \<Rightarrow>
          try_finally_close
            (case keyFromUrl parse url (Some key) None of
               Inl e \<Rightarrow> (Inl e, [OpenDb])
             | Inr k \<Rightarrow>
                 (case db_get db k of
                    Inl e \<Rightarrow> (Inl e, [OpenDb, DbGet k])
                  | Inr v \<Rightarrow> (Inr (unpackValue v), [OpenDb, DbGet k]))))"

text \<open>
  The caller of a generator: it takes items until the sequence ends; or it takes \<open>n\<close>
  items and then abandons the sequence with \<^verbatim>\<open>return()\<close> (what leaving a
  \<^verbatim>\<open>for await\<close> loop early does); or it takes \<open>n\<close> items and then never calls
  \<^verbatim>\<open>next\<close> or \<^verbatim>\<open>return\<close> again.
\<close>

datatype caller = Exhaust | ReturnAfter nat | StopAfter nat

fun fewer :: "caller \<Rightarrow> caller" where
  "fewer Exhaust = Exhaust"
| "fewer (ReturnAfter n) = ReturnAfter (n - 1)"
| "fewer (StopAfter n) = StopAfter (n - 1)"

text \<open>
  How a generator run ends: its body returned, it threw, the caller abandoned it with
  \<^verbatim>\<open>return()\<close> while it was suspended at a \<^verbatim>\<open>yield\<close>, or it stays suspended
  because the caller never resumes it. Of a suspended generator no \<^verbatim>\<open>finally\<close> block
  has run.
\<close>

datatype completion = Done | Threw error | Returned | Suspended

text \<open>A generator run: the items yielded, how the run ended, and the events.\<close>

type_synonym run = "KeyValue list \<times> completion \<times> event list"

text \<open>
  The loop of \<^verbatim>\<open>readAll\<close> over \<^verbatim>\<open>asyncIterable(stream)\<close>, against a caller. Each
  round asks the iterator for the next record, and yields the item made of it before
  asking again.
\<close>

fun for_await :: "(error + Bytes \<times> Bytes) list \<Rightarrow> caller \<Rightarrow> run" where
  "for_await [] caller = ([], Done, [IteratorNext])"
| "for_await (Inl e # script) caller = ([], Threw e, [IteratorNext])"
| "for_await (Inr (k, v) # script) caller =
     (let item = \<lparr>item_key = actualKey k, item_value = unpackValue v\<rparr> in
      if caller = ReturnAfter 1 then ([item], Returned, [IteratorNext, Yield item])
      else if caller = StopAfter 1 then ([item], Suspended, [IteratorNext, Yield item])
      else
        (case for_await script (fewer caller) of
           (items, c, t) \<Rightarrow> (item # items, c, IteratorNext # Yield item # t)))"

text \<open>
  \<^verbatim>\<open>asyncIterable(iterator)\<close>: the loop, and in its \<^verbatim>\<open>finally\<close> the call of
  \<^verbatim>\<open>iterator.end\<close>, whose error replaces the outcome of the loop.
\<close>

definition asyncIterable :: "Database \<Rightarrow> (error + Bytes \<times> Bytes) list \<Rightarrow> caller \<Rightarrow> run" where
  "asyncIterable db script caller =
     (case for_await script caller of
        (items, c, t) \<Rightarrow>
          if c = Suspended then (items, c, t)
          else (items, (case end_error db of Some e \<Rightarrow> Threw e | None \<Rightarrow> c),
                t @ [IteratorEnd]))"

text \<open>
  \<^verbatim>\<open>LocalStorageExtractor.readAll(url)\<close>. The body of the generator starts when the
  caller asks for the first item; what \<^verbatim>\<open>close\<close> returns is not awaited.
\<close>

definition readAll ::
  "error + Database \<Rightarrow> url_parser \<Rightarrow> jsstring \<Rightarrow> caller \<Rightarrow> run"
where
  "readAll openDb parse url caller =
     (if caller = ReturnAfter 0 then ([], Returned, [])
      else if caller = StopAfter 0 then ([], Suspended, [])
      else
        case keyFromUrl parse url None None of
          Inl e \<Rightarrow> ([], Threw e, [])
        | Inr start \<Rightarrow>
            (case keyFromUrl parse url (Some [1]) (Some []) of
               Inl e \<Rightarrow> ([], Threw e, [])
             | Inr end' \<Rightarrow>
                 (case openDb of
                    Inl e \<Rightarrow> ([], Threw e, [])
                  | Inr db \<Rightarrow>
                      (case (case iterator_error db of
                               Some e \<Rightarrow> ([], Threw e, [])
                             | None \<Rightarrow>
                                 (case asyncIterable db (db_iterator db start end') caller of
                                    (items, c, t) \<Rightarrow> (items, c, DbIterator start end' # t)))
                       of (items, c, t) \<Rightarrow>
                         (items, c, OpenDb # t @ (if c = Suspended then [] else [DbClose]))))))"

text \<open>The item that \<^verbatim>\<open>readAll\<close> makes of a record of the store.\<close>

definition item_of :: "Bytes \<times> Bytes \<Rightarrow> KeyValue" where
  "item_of r = \<lparr>item_key = actualKey (fst r), item_value = unpackValue (snd r)\<rparr>"

section \<open>Sample data\<close>

text \<open>
  What \<^verbatim>\<open>urllib.parse\<close> returns for \<^verbatim>\<open>https://a.com\<close>, and for the other URL of the
  examples, \<^verbatim>\<open>https://b.com\<close>.
\<close>

definition two_sites :: url_parser where
  "two_sites url =
     (if url = str ''https://a.com''
      then Inr \<lparr>protocol = Some (str ''https:''), host = Some (str ''a.com'')\<rparr>
      else Inr \<lparr>protocol = Some (str ''https:''), host = Some (str ''b.com'')\<rparr>)"

text \<open>
  What \<^verbatim>\<open>urllib.parse\<close> does with four more URLs: \<^verbatim>\<open>http://a.com/x\<close>;
  \<^verbatim>\<open>//u@a.com/x\<close>, a URL without a protocol whose host is found by its
  \<^verbatim>\<open>user@\<close> part; \<^verbatim>\<open>http://%@a.com/\<close>, at which it throws because the
  \<^verbatim>\<open>user\<close> part cannot be decoded; and \<^verbatim>\<open>/x\<close> (any other URL here), with neither
  protocol nor host.
\<close>

definition more_urls :: url_parser where
  "more_urls url =
     (if url = str ''http://a.com/x''
      then Inr \<lparr>protocol = Some (str ''http:''), host = Some (str ''a.com'')\<rparr>
      else if url = str ''//u@a.com/x''
      then Inr \<lparr>protocol = None, host = Some (str ''a.com'')\<rparr>
      else if url = str ''http://%@a.com/''
      then Inl (URIError ''URI malformed'')
      else Inr \<lparr>protocol = None, host = None\<rparr>)"

text \<open>
  What \<^verbatim>\<open>urllib.parse\<close> returns for URLs whose host is in brackets, which it takes
  as it stands: the hosts \<^verbatim>\<open>[a]\<close>; \<^verbatim>\<open>[a]\<close>, NUL, \<^verbatim>\<open>]\<close>; and (any other URL here)
  \<^verbatim>\<open>[a\<close>, NUL, SOH, \<^verbatim>\<open>b]\<close>.
\<close>

definition bracket_hosts :: url_parser where
  "bracket_hosts url =
     (if url = str ''http://[a]/''
      then Inr \<lparr>protocol = Some (str ''http:''), host = Some (str ''[a]'')\<rparr>
      else if url = str ''http://[a]'' @ [0] @ str '']/''
      then Inr \<lparr>protocol = Some (str ''http:''), host = Some (str ''[a]'' @ [0] @ str '']'')\<rparr>
      else Inr \<lparr>protocol = Some (str ''http:''),
                host = Some (str ''[a'' @ [0, 1] @ str ''b]'')\<rparr>)"

text \<open>
  A store with the records of two origins (the scenario of the spec), and a record under
  the origin key of \<^verbatim>\<open>https://a.com\<close> itself.
\<close>

definition sample_db :: Database where
  "sample_db =
     \<lparr>entries =
        [(Buffer_from (str ''_https://a.com''), [0x01, 0x41]),
         (Buffer_from (str ''_https://a.com'') @ [0, 1] @ Buffer_from (str ''lang''), [0x01, 0x65, 0x6E]),
         (Buffer_from (str ''_https://a.com'') @ [0, 1] @ Buffer_from (str ''theme''), [0x01, 0x64, 0x61, 0x72, 0x6B]),
         (Buffer_from (str ''_https://b.com'') @ [0, 1] @ Buffer_from (str ''theme''), [0x01, 0x6C])],
      get_error = None, iterator_error = None, next_error = None, end_error = None,
      close_error = None\<rparr>"

text \<open>
  A store whose values begin with the two bytes \<^verbatim>\<open>C3 A9\<close> (the letter e-acute in
  UTF-8) in the place of a marker byte: one under the origin key of \<^verbatim>\<open>https://a.com\<close>,
  one under its key \<^verbatim>\<open>e\<close>.
\<close>

definition accent_db :: Database where
  "accent_db =
     \<lparr>entries =
        [(Buffer_from (str ''_https://a.com''), [0xC3, 0xA9, 0x41]),
         (Buffer_from (str ''_https://a.com'') @ [0, 1] @ Buffer_from (str ''e''), [0xC3, 0xA9, 0x41])],
      get_error = None, iterator_error = None, next_error = None, end_error = None,
      close_error = None\<rparr>"


section \<open>Release of the store handle, as a property of the events\<close>





section \<open>UTF-8 encoding and decoding are inverse on well-formed strings\<close>

lemma unat_byte_of: "n < 256 \<Longrightarrow> unat (byte_of n) = n"
  by (simp add: byte_of_def unat_of_nat)

lemma unat_unit_of: "n < 65536 \<Longrightarrow> unat (unit_of n) = n"
  by (simp add: unit_of_def unat_of_nat)

lemma unit_of_unat: "unit_of (unat u) = u"
  by (simp add: unit_of_def)

lemma is_high_unat: "is_high u \<longleftrightarrow> 0xD800 \<le> unat u \<and> unat u \<le> 0xDBFF"
  by (simp add: is_high_def word_le_nat_alt)

lemma is_low_unat: "is_low u \<longleftrightarrow> 0xDC00 \<le> unat u \<and> unat u \<le> 0xDFFF"
  by (simp add: is_low_def word_le_nat_alt)

lemma unat_unit_bound: "unat (u :: code_unit) < 65536"
  using unsigned_less [of u, where 'a = nat] by simp

lemma decode_seq1:
  "unat b < 0x80 \<Longrightarrow> utf8_decode (b # rest) = unat b # utf8_decode rest"
  by (simp add: decode1_def)

lemma decode_seq2:
  assumes "0xC2 \<le> unat b" "unat b \<le> 0xDF" "0x80 \<le> unat c1" "unat c1 \<le> 0xBF"
  shows "utf8_decode (b # c1 # rest)
    = ((unat b - 0xC0) * 0x40 + (unat c1 - 0x80)) # utf8_decode rest"
  using assms by (simp add: decode1_def decode2_def cont_def)

lemma decode_seq3:
  assumes "0xE0 \<le> unat b" "unat b \<le> 0xEF"
    and "(if unat b = 0xE0 then 0xA0 else 0x80) \<le> unat c1"
    and "unat c1 \<le> (if unat b = 0xED then 0x9F else 0xBF)"
    and "0x80 \<le> unat c2" "unat c2 \<le> 0xBF"
  shows "utf8_decode (b # c1 # c2 # rest)
    = ((unat b - 0xE0) * 0x1000 + (unat c1 - 0x80) * 0x40 + (unat c2 - 0x80)) # utf8_decode rest"
  using assms by (simp add: decode1_def decode3_def cont_def)

lemma decode_seq4:
  assumes "0xF0 \<le> unat b" "unat b \<le> 0xF4"
    and "(if unat b = 0xF0 then 0x90 else 0x80) \<le> unat c1"
    and "unat c1 \<le> (if unat b = 0xF4 then 0x8F else 0xBF)"
    and "0x80 \<le> unat c2" "unat c2 \<le> 0xBF" "0x80 \<le> unat c3" "unat c3 \<le> 0xBF"
  shows "utf8_decode (b # c1 # c2 # c3 # rest)
    = ((unat b - 0xF0) * 0x40000 + (unat c1 - 0x80) * 0x1000 + (unat c2 - 0x80) * 0x40
        + (unat c3 - 0x80)) # utf8_decode rest"
  using assms by (simp add: decode1_def decode4_def cont_def)


lemma split3_gen: "(c::nat) div (k * k) * (k * k) + c div k mod k * k + c mod k = c"
proof -
  have alg: "e * (k * k) + m * k = (e * k + m) * k" for e m :: nat
    by (simp add: algebra_simps)
  have "c div (k * k) = c div k div k" by (rule div_mult2_eq)
  then have "c div (k * k) * (k * k) + c div k mod k * k = (c div k div k * k + c div k mod k) * k"
    by (simp only: alg)
  also have "\<dots> = c div k * k" by (simp only: div_mult_mod_eq)
  finally show ?thesis by (simp only: div_mult_mod_eq)
qed

lemma split4_gen:
  "(c::nat) div (k * k * k) * (k * k * k) + c div (k * k) mod k * (k * k) + c div k mod k * k
     + c mod k = c"
proof -
  have alg: "e * (k * k * k) + m * (k * k) + n * k = (e * (k * k) + m * k + n) * k"
    for e m n :: nat
    by (simp add: algebra_simps)
  have 1: "c div (k * k * k) = c div k div (k * k)"
    by (simp only: div_mult2_eq mult.assoc)
  have 2: "c div (k * k) = c div k div k" by (rule div_mult2_eq)
  have "c div (k * k * k) * (k * k * k) + c div (k * k) mod k * (k * k) + c div k mod k * k
      = (c div k div (k * k) * (k * k) + c div k div k mod k * k + c div k mod k) * k"
    by (simp only: 1 2 alg)
  also have "\<dots> = c div k * k" by (simp only: split3_gen)
  finally show ?thesis by (simp only: div_mult_mod_eq)
qed

lemma split4096: "(c::nat) div 0x1000 * 0x1000 + c div 0x40 mod 0x40 * 0x40 + c mod 0x40 = c"
  using split3_gen [of c "0x40"] by simp

lemma split262144:
  "(c::nat) div 0x40000 * 0x40000 + c div 0x1000 mod 0x40 * 0x1000 + c div 0x40 mod 0x40 * 0x40
     + c mod 0x40 = c"
  using split4_gen [of c "0x40"] by simp

lemma decode_encode1:
  assumes "c < 0x80"
  shows "utf8_decode (utf8_bytes c @ rest) = c # utf8_decode rest"
proof -
  have "unat (byte_of c) = c" using assms by (simp add: unat_byte_of)
  then show ?thesis
    using assms decode_seq1 [of "byte_of c" rest]
    by (simp add: utf8_bytes_def del: utf8_decode.simps)
qed

lemma decode_encode2:
  assumes "0x80 \<le> c" "c < 0x800"
  shows "utf8_decode (utf8_bytes c @ rest) = c # utf8_decode rest"
proof -
  define b where "b = byte_of (0xC0 + c div 0x40)"
  define c1 where "c1 = byte_of (0x80 + c mod 0x40)"
  have d: "2 \<le> c div 0x40" "c div 0x40 < 32" using assms by arith+
  have ub: "unat b = 0xC0 + c div 0x40" unfolding b_def using d by (intro unat_byte_of) arith
  have u1: "unat c1 = 0x80 + c mod 0x40" unfolding c1_def by (intro unat_byte_of) arith
  have enc: "utf8_bytes c = [b, c1]" using assms by (simp add: utf8_bytes_def b_def c1_def)
  have "utf8_decode (b # c1 # rest)
      = ((unat b - 0xC0) * 0x40 + (unat c1 - 0x80)) # utf8_decode rest"
    by (rule decode_seq2) (use ub u1 d in arith)+
  also have "(unat b - 0xC0) * 0x40 + (unat c1 - 0x80) = c"
    using div_mult_mod_eq [of c "0x40"] by (simp add: ub u1)
  finally show ?thesis by (simp add: enc del: utf8_decode.simps)
qed


lemma decode_encode3:
  assumes "0x800 \<le> c" "c < 0x10000" "\<not> (0xD800 \<le> c \<and> c \<le> 0xDFFF)"
  shows "utf8_decode (utf8_bytes c @ rest) = c # utf8_decode rest"
proof -
  define q where "q = c div 0x1000"
  define m where "m = c div 0x40 mod 0x40"
  define r where "r = c mod 0x40"
  define b where "b = byte_of (0xE0 + q)"
  define c1 where "c1 = byte_of (0x80 + m)"
  define c2 where "c2 = byte_of (0x80 + r)"
  have c: "c = q * 0x1000 + m * 0x40 + r"
    using split4096 [of c] by (simp add: q_def m_def r_def)
  have m: "m < 0x40" and r: "r < 0x40" by (simp_all add: m_def r_def)
  have q: "q < 16" using c assms(2) by arith
  have ub: "unat b = 0xE0 + q" unfolding b_def using q by (intro unat_byte_of) arith
  have u1: "unat c1 = 0x80 + m" unfolding c1_def using m by (intro unat_byte_of) arith
  have u2: "unat c2 = 0x80 + r" unfolding c2_def using r by (intro unat_byte_of) arith
  have lo: "q = 0 \<Longrightarrow> 0x20 \<le> m" using c assms(1) r by arith
  have hi: "q = 13 \<Longrightarrow> m \<le> 0x1F" using c assms(3) m r by arith
  have enc: "utf8_bytes c = [b, c1, c2]"
    using assms by (simp add: utf8_bytes_def b_def c1_def c2_def q_def m_def r_def)
  have "utf8_decode (b # c1 # c2 # rest)
      = ((unat b - 0xE0) * 0x1000 + (unat c1 - 0x80) * 0x40 + (unat c2 - 0x80)) # utf8_decode rest"
  proof (rule decode_seq3)
    show "0xE0 \<le> unat b" "unat b \<le> 0xEF" using ub q by arith+
    show "(if unat b = 0xE0 then 0xA0 else 0x80) \<le> unat c1" using lo by (simp add: ub u1)
    show "unat c1 \<le> (if unat b = 0xED then 0x9F else 0xBF)"
      using hi m by (simp add: ub u1)
    show "0x80 \<le> unat c2" "unat c2 \<le> 0xBF" using r by (simp_all add: u2)
  qed
  also have "(unat b - 0xE0) * 0x1000 + (unat c1 - 0x80) * 0x40 + (unat c2 - 0x80) = c"
    using c by (simp add: ub u1 u2)
  finally show ?thesis by (simp add: enc del: utf8_decode.simps)
qed

lemma decode_encode4:
  assumes "0x10000 \<le> c" "c < 0x110000"
  shows "utf8_decode (utf8_bytes c @ rest) = c # utf8_decode rest"
proof -
  define q where "q = c div 0x40000"
  define l where "l = c div 0x1000 mod 0x40"
  define m where "m = c div 0x40 mod 0x40"
  define r where "r = c mod 0x40"
  define b where "b = byte_of (0xF0 + q)"
  define c1 where "c1 = byte_of (0x80 + l)"
  define c2 where "c2 = byte_of (0x80 + m)"
  define c3 where "c3 = byte_of (0x80 + r)"
  have c: "c = q * 0x40000 + l * 0x1000 + m * 0x40 + r"
    using split262144 [of c] by (simp add: q_def l_def m_def r_def)
  have l: "l < 0x40" and m: "m < 0x40" and r: "r < 0x40"
    by (simp_all add: l_def m_def r_def)
  have q: "q \<le> 4" using c assms(2) by arith
  have ub: "unat b = 0xF0 + q" unfolding b_def using q by (intro unat_byte_of) arith
  have u1: "unat c1 = 0x80 + l" unfolding c1_def using l by (intro unat_byte_of) arith
  have u2: "unat c2 = 0x80 + m" unfolding c2_def using m by (intro unat_byte_of) arith
  have u3: "unat c3 = 0x80 + r" unfolding c3_def using r by (intro unat_byte_of) arith
  have lo: "q = 0 \<Longrightarrow> 0x10 \<le> l" using c assms(1) m r by arith
  have hi: "q = 4 \<Longrightarrow> l \<le> 0xF" using c assms(2) by arith
  have enc: "utf8_bytes c = [b, c1, c2, c3]"
    using assms
    by (simp add: utf8_bytes_def b_def c1_def c2_def c3_def q_def l_def m_def r_def)
  have "utf8_decode (b # c1 # c2 # c3 # rest)
      = ((unat b - 0xF0) * 0x40000 + (unat c1 - 0x80) * 0x1000 + (unat c2 - 0x80) * 0x40
          + (unat c3 - 0x80)) # utf8_decode rest"
  proof (rule decode_seq4)
    show "0xF0 \<le> unat b" "unat b \<le> 0xF4" using ub q by arith+
    show "(if unat b = 0xF0 then 0x90 else 0x80) \<le> unat c1" using lo by (simp add: ub u1)
    show "unat c1 \<le> (if unat b = 0xF4 then 0x8F else 0xBF)"
      using hi l by (simp add: ub u1)
    show "0x80 \<le> unat c2" "unat c2 \<le> 0xBF" using m by (simp_all add: u2)
    show "0x80 \<le> unat c3" "unat c3 \<le> 0xBF" using r by (simp_all add: u3)
  qed
  also have "(unat b - 0xF0) * 0x40000 + (unat c1 - 0x80) * 0x1000 + (unat c2 - 0x80) * 0x40
      + (unat c3 - 0x80) = c"
    using c by (simp add: ub u1 u2 u3)
  finally show ?thesis by (simp add: enc del: utf8_decode.simps)
qed

lemma decode_encode:
  assumes "scalar c"
  shows "utf8_decode (utf8_bytes c @ rest) = c # utf8_decode rest"
proof -
  consider "c < 0x80" | "0x80 \<le> c" "c < 0x800" | "0x800 \<le> c" "c < 0x10000" | "0x10000 \<le> c"
    by arith
  then show ?thesis
  proof cases
    case 1 then show ?thesis by (rule decode_encode1)
  next
    case 2 then show ?thesis by (rule decode_encode2)
  next
    case 3 with assms show ?thesis by (intro decode_encode3) (simp_all add: scalar_def)
  next
    case 4 with assms show ?thesis by (intro decode_encode4) (simp_all add: scalar_def)
  qed
qed


lemma scalar_unat: "\<not> is_high u \<Longrightarrow> \<not> is_low u \<Longrightarrow> scalar (unat u)"
  using unat_unit_bound [of u] by (simp add: scalar_def is_high_unat is_low_unat) arith

lemma utf16_units_unat: "utf16_units (unat u) = [u]"
  using unat_unit_bound [of u] by (simp add: utf16_units_def unit_of_unat)

lemma pair_cp_digits:
  assumes "is_high h" "is_low l"
  shows "0x10000 \<le> pair_cp h l" "pair_cp h l < 0x110000"
    "(pair_cp h l - 0x10000) div 0x400 = unat h - 0xD800"
    "(pair_cp h l - 0x10000) mod 0x400 = unat l - 0xDC00"
proof -
  define a where "a = unat h - 0xD800"
  define b where "b = unat l - 0xDC00"
  have a: "a < 0x400" and b: "b < 0x400"
    using assms by (simp_all add: a_def b_def is_high_unat is_low_unat) arith+
  have p: "pair_cp h l = 0x10000 + a * 0x400 + b"
    by (simp add: pair_cp_def a_def b_def)
  show "0x10000 \<le> pair_cp h l" by (simp add: p)
  show "pair_cp h l < 0x110000" using a b by (simp add: p)
  have "(a * 0x400 + b) div 0x400 = a" using b by simp
  then show "(pair_cp h l - 0x10000) div 0x400 = unat h - 0xD800"
    by (simp add: p a_def add.assoc)
  have "(a * 0x400 + b) mod 0x400 = b" using b by simp
  then show "(pair_cp h l - 0x10000) mod 0x400 = unat l - 0xDC00"
    by (simp add: p b_def add.assoc)
qed

lemma scalar_pair_cp: "is_high h \<Longrightarrow> is_low l \<Longrightarrow> scalar (pair_cp h l)"
  using pair_cp_digits(1,2) [of h l] by (simp add: scalar_def)

lemma utf16_units_pair_cp:
  assumes "is_high h" "is_low l"
  shows "utf16_units (pair_cp h l) = [h, l]"
proof -
  have "0xD800 + (unat h - 0xD800) = unat h" "0xDC00 + (unat l - 0xDC00) = unat l"
    using assms by (simp_all add: is_high_unat is_low_unat)
  then show ?thesis
    using pair_cp_digits [OF assms] by (simp add: utf16_units_def unit_of_unat)
qed

lemma toString_Nil: "toString [] = []"
  by (simp add: toString_def)

lemma toString_encode:
  "scalar c \<Longrightarrow> toString (utf8_bytes c @ rest) = utf16_units c @ toString rest"
  by (simp add: toString_def decode_encode)

lemma toString_Buffer_from_append:
  "well_formed s \<Longrightarrow> toString (Buffer_from s @ rest) = s @ toString rest"
proof (induction s rule: well_formed.induct)
  case 1
  show ?case by simp
next
  case (2 u)
  then show ?case
    by (simp add: toString_encode scalar_unat utf16_units_unat)
next
  case (3 u v us)
  show ?case
  proof (cases "is_high u")
    case True
    with 3 have "is_low v" "well_formed us" "toString (Buffer_from us @ rest) = us @ toString rest"
      by simp_all
    then show ?thesis
      using True by (simp add: toString_encode scalar_pair_cp utf16_units_pair_cp)
  next
    case False
    with 3 have "\<not> is_low u" "toString (Buffer_from (v # us) @ rest) = (v # us) @ toString rest"
      by simp_all
    then show ?thesis
      using False by (simp add: toString_encode scalar_unat utf16_units_unat)
  qed
qed

lemma toString_Buffer_from: "well_formed s \<Longrightarrow> toString (Buffer_from s) = s"
  using toString_Buffer_from_append [of s "[]"] by (simp add: toString_Nil)

section \<open>Encoding concatenations, and the order of keys\<close>

lemma Buffer_from_Cons:
  "\<not> is_high u \<Longrightarrow> Buffer_from (u # s) = Buffer_from [u] @ Buffer_from s"
  by (cases s) simp_all

lemma Buffer_from_append:
  "b = [] \<or> \<not> is_low (hd b) \<Longrightarrow> Buffer_from (a @ b) = Buffer_from a @ Buffer_from b"
proof (induction a rule: Buffer_from.induct)
  case 1
  show ?case by simp
next
  case (2 u)
  then show ?case by (cases b) auto
next
  case (3 u v us)
  then show ?case by simp
qed

lemma Buffer_from_sep_key:
  "Buffer_from (s @ hostKeySeparator @ k) = Buffer_from s @ [0, 1] @ Buffer_from k"
proof -
  have "Buffer_from (s @ hostKeySeparator @ k) = Buffer_from s @ Buffer_from (0 # 1 # k)"
    by (rule trans [OF Buffer_from_append]) (simp_all add: hostKeySeparator_def is_low_unat)
  also have "Buffer_from (0 # 1 # k) = Buffer_from [0] @ Buffer_from [1] @ Buffer_from k"
    using Buffer_from_Cons [of 0 "1 # k"] Buffer_from_Cons [of 1 k]
    by (simp add: is_high_unat)
  also have "Buffer_from [0] = [0]"
    by (simp add: is_high_unat is_low_unat utf8_bytes_def byte_of_def)
  also have "Buffer_from [1] = [1]"
    by (simp add: is_high_unat is_low_unat utf8_bytes_def byte_of_def)
  finally show ?thesis by simp
qed

lemma Buffer_from_snoc1: "Buffer_from (s @ [1]) = Buffer_from s @ [1]"
proof -
  have "Buffer_from (s @ [1]) = Buffer_from s @ Buffer_from [1]"
    by (rule Buffer_from_append) (simp add: is_low_unat)
  also have "Buffer_from [1] = [1]"
    by (simp add: is_high_unat is_low_unat utf8_bytes_def byte_of_def)
  finally show ?thesis .
qed

lemma bytewise_le_refl: "bytewise_le a a"
  by (induction a) simp_all

lemma bytewise_le_append: "bytewise_le a (a @ b)"
  by (induction a) simp_all

lemma bytewise_le_Nil_right: "bytewise_le k [] \<longleftrightarrow> k = []"
  by (cases k) simp_all

lemma scan_range_iff:
  "bytewise_le a k \<and> bytewise_le k (a @ [1]) \<longleftrightarrow>
   k = a \<or> (\<exists>r. k = a @ 0 # r) \<or> k = a @ [1]"
proof (induction a arbitrary: k)
  case Nil
  show ?case
    by (cases k) (auto simp: bytewise_le_Nil_right)
next
  case (Cons x a)
  show ?case
  proof (cases k)
    case Nil
    then show ?thesis by simp
  next
    case (Cons y k')
    have "bytewise_le (x # a) k \<and> bytewise_le k ((x # a) @ [1]) \<longleftrightarrow>
        x = y \<and> bytewise_le a k' \<and> bytewise_le k' (a @ [1])"
      using Cons by auto
    then show ?thesis
      using Cons.IH [of k'] Cons by auto
  qed
qed


lemma byte_of_gt1: "1 < n \<Longrightarrow> n < 256 \<Longrightarrow> 1 < byte_of n"
  by (simp add: word_less_nat_alt unat_byte_of)

lemma utf8_bytes_gt1:
  assumes "1 < c" "c < 0x110000"
  shows "\<forall>b\<in>set (utf8_bytes c). 1 < b"
proof -
  have m: "x mod 0x40 < 0x40" for x :: nat by simp
  have d2: "c < 0x800 \<Longrightarrow> c div 0x40 < 0x20"
    by (rule less_mult_imp_div_less) simp
  have d3: "c < 0x10000 \<Longrightarrow> c div 0x1000 < 0x10"
    by (rule less_mult_imp_div_less) simp
  have d4: "c div 0x40000 < 5"
    using assms(2) by (intro less_mult_imp_div_less) simp
  show ?thesis
    using assms(1) d2 d3 d4 m [of c] m [of "c div 0x40"] m [of "c div 0x1000"]
    by (auto simp: utf8_bytes_def intro!: byte_of_gt1)
qed

lemma unit_gt1: "1 < (u :: code_unit) \<longleftrightarrow> 1 < unat u"
  by (simp add: word_less_nat_alt)

lemma Buffer_from_gt1:
  "well_formed s \<Longrightarrow> \<forall>u\<in>set s. 1 < u \<Longrightarrow> \<forall>b\<in>set (Buffer_from s). 1 < b"
proof (induction s rule: Buffer_from.induct)
  case 1
  show ?case by simp
next
  case (2 u)
  then show ?case
    using utf8_bytes_gt1 [of "unat u"] unat_unit_bound [of u]
    by (simp add: unit_gt1)
next
  case (3 u v us)
  show ?case
  proof (cases "is_high u")
    case True
    with 3 have low: "is_low v" and "well_formed us" "\<forall>u\<in>set us. 1 < u" by simp_all
    with 3 True have "\<forall>b\<in>set (Buffer_from us). 1 < b" by simp
    moreover have "\<forall>b\<in>set (utf8_bytes (pair_cp u v)). 1 < b"
      using pair_cp_digits(1,2) [OF True low] by (intro utf8_bytes_gt1) simp_all
    ultimately show ?thesis using True low by auto
  next
    case False
    with 3 have nl: "\<not> is_low u" and "well_formed (v # us)" "\<forall>u\<in>set (v # us). 1 < u"
      by simp_all
    with 3 False have "\<forall>b\<in>set (Buffer_from (v # us)). 1 < b" by simp
    moreover have "\<forall>b\<in>set (utf8_bytes (unat u)). 1 < b"
      using 3(5) unat_unit_bound [of u] by (intro utf8_bytes_gt1) (simp_all add: unit_gt1)
    ultimately show ?thesis using False nl by auto
  qed
qed

lemma Buffer_from_inj:
  "well_formed a \<Longrightarrow> well_formed b \<Longrightarrow> Buffer_from a = Buffer_from b \<Longrightarrow> a = b"
  by (metis toString_Buffer_from)

lemma takeWhile_gt1:
  "\<forall>b\<in>set a. (1 :: byte) < b \<Longrightarrow> r = [] \<or> hd r \<le> 1 \<Longrightarrow> takeWhile (\<lambda>b. 1 < b) (a @ r) = a"
  by (cases r) auto

section \<open>Key derivation\<close>

lemmas codec_eval =
  str_def is_high_unat is_low_unat utf8_bytes_def byte_of_def replacement_bytes_def
  toString_def decode1_def decode2_def decode3_def decode4_def cont_def utf16_units_def unit_of_def
  hostKeySeparator_def split_def actualKey_def unpackValue_def slice1_def

lemma keyFromUrl_throws:
  "parse url = Inl e \<Longrightarrow> keyFromUrl parse url key sep = Inl e"
  by (simp add: keyFromUrl_def Let_def)

lemma keyFromUrl_no_host:
  "parse url = Inr parsed \<Longrightarrow> \<not> truthy (host parsed) \<Longrightarrow>
   keyFromUrl parse url key sep = Inl (Error ''host is required'')"
  by (simp add: keyFromUrl_def Let_def truthy_def split: option.splits)

lemma keyFromUrl_host:
  "parse url = Inr parsed \<Longrightarrow> truthy (host parsed) \<Longrightarrow>
   keyFromUrl parse url key sep = Inr (Buffer_from (origin parsed @ suffix_of key sep))"
  by (simp add: keyFromUrl_def Let_def truthy_def origin_def effective_protocol_def suffix_of_def
      split: option.splits)

text \<open>
  \<^verbatim>\<open>keyFromUrl\<close> reads the URL through the parser only, and copies the parsed protocol and
  host into the key as they are.
\<close>

lemma keyFromUrl_parsed_only:
  assumes "parse url1 = Inr p1" "parse url2 = Inr p2"
    and "protocol p1 = protocol p2" "host p1 = host p2"
  shows "keyFromUrl parse url1 key sep = keyFromUrl parse url2 key sep"
  using assms
  by (cases "truthy (host p2)")
    (simp_all add: keyFromUrl_no_host keyFromUrl_host origin_def effective_protocol_def)

lemma str_https: "str ''_https://'' = str ''_'' @ str ''https:'' @ str ''//''"
  by (simp add: str_def)

lemma str_colon_slashes: "str ''://'' = str '':'' @ str ''//''"
  by (simp add: str_def)

lemma str_not_Nil: "str '':'' \<noteq> []" "str ''https:'' \<noteq> []"
  by (simp_all add: str_def)

text \<open>
  C3, as the code has it. \<^verbatim>\<open>keyFromUrl\<close>, with or without an application key, fails
  exactly when the URL does not parse to a non-empty host: with the error of the parser
  when \<^verbatim>\<open>urllib.parse\<close> throws, and with \<^verbatim>\<open>Error("host is required")\<close> when the
  parsed URL has no host or an empty one. Otherwise the origin key is the UTF-8 encoding
  of \<^verbatim>\<open>_<scheme>://<host>\<close>, where the scheme is the parsed protocol without its
  colon, and \<^verbatim>\<open>https\<close> when the parsed URL has no protocol.
\<close>

theorem keyFromUrl_host_required:
  "(isl (keyFromUrl parse url key sep)
      \<longleftrightarrow> \<not> (\<exists>parsed. parse url = Inr parsed \<and> truthy (host parsed)))
   \<and> (parse url = Inl e \<longrightarrow> keyFromUrl parse url key sep = Inl e)
   \<and> (parse url = Inr parsed \<and> \<not> truthy (host parsed) \<longrightarrow>
        keyFromUrl parse url key sep = Inl (Error ''host is required''))
   \<and> (parse url = Inr parsed \<and> host parsed = Some h \<and> h \<noteq> []
        \<and> protocol parsed = Some (scheme @ str '':'') \<longrightarrow>
        keyFromUrl parse url None sep = Inr (Buffer_from (str ''_'' @ scheme @ str ''://'' @ h)))
   \<and> (parse url = Inr parsed \<and> host parsed = Some h \<and> h \<noteq> []
        \<and> \<not> truthy (protocol parsed) \<longrightarrow>
        keyFromUrl parse url None sep = Inr (Buffer_from (str ''_https://'' @ h)))"
proof -
  have 1: "isl (keyFromUrl parse url key sep)
      \<longleftrightarrow> \<not> (\<exists>parsed. parse url = Inr parsed \<and> truthy (host parsed))"
  proof (cases "parse url")
    case (Inl e')
    then show ?thesis by (simp add: keyFromUrl_throws)
  next
    case (Inr p)
    then show ?thesis
      by (cases "truthy (host p)") (simp_all add: keyFromUrl_no_host keyFromUrl_host)
  qed
  have 2: "parse url = Inl e \<longrightarrow> keyFromUrl parse url key sep = Inl e"
    by (simp add: keyFromUrl_throws)
  have 3: "parse url = Inr parsed \<and> \<not> truthy (host parsed) \<longrightarrow>
      keyFromUrl parse url key sep = Inl (Error ''host is required'')"
    by (simp add: keyFromUrl_no_host)
  have o1: "host parsed = Some h \<Longrightarrow> protocol parsed = Some (scheme @ str '':'') \<Longrightarrow>
      origin parsed = str ''_'' @ scheme @ str ''://'' @ h"
    by (simp add: origin_def effective_protocol_def str_colon_slashes str_not_Nil)
  have o2: "host parsed = Some h \<Longrightarrow> \<not> truthy (protocol parsed) \<Longrightarrow>
      origin parsed = str ''_https://'' @ h"
    by (simp add: origin_def effective_protocol_def str_https truthy_def split: option.splits)
  have 4: "parse url = Inr parsed \<and> host parsed = Some h \<and> h \<noteq> []
      \<and> protocol parsed = Some (scheme @ str '':'') \<longrightarrow>
      keyFromUrl parse url None sep = Inr (Buffer_from (str ''_'' @ scheme @ str ''://'' @ h))"
  proof (intro impI, elim conjE)
    assume a: "parse url = Inr parsed" "host parsed = Some h" "h \<noteq> []"
      "protocol parsed = Some (scheme @ str '':'')"
    then have "truthy (host parsed)" by (simp add: truthy_def)
    with a show "keyFromUrl parse url None sep
        = Inr (Buffer_from (str ''_'' @ scheme @ str ''://'' @ h))"
      using keyFromUrl_host [of parse url parsed None sep] o1 by (simp add: suffix_of_def)
  qed
  have 5: "parse url = Inr parsed \<and> host parsed = Some h \<and> h \<noteq> []
      \<and> \<not> truthy (protocol parsed) \<longrightarrow>
      keyFromUrl parse url None sep = Inr (Buffer_from (str ''_https://'' @ h))"
  proof (intro impI, elim conjE)
    assume a: "parse url = Inr parsed" "host parsed = Some h" "h \<noteq> []"
      "\<not> truthy (protocol parsed)"
    then have "truthy (host parsed)" by (simp add: truthy_def)
    with a show "keyFromUrl parse url None sep = Inr (Buffer_from (str ''_https://'' @ h))"
      using keyFromUrl_host [of parse url parsed None sep] o2 by (simp add: suffix_of_def)
  qed
  from 1 2 3 4 5 show ?thesis by (intro conjI)
qed

lemma more_urls_simps:
  "more_urls (str ''http://a.com/x'')
     = Inr \<lparr>protocol = Some (str ''http:''), host = Some (str ''a.com'')\<rparr>"
  "more_urls (str ''//u@a.com/x'') = Inr \<lparr>protocol = None, host = Some (str ''a.com'')\<rparr>"
  "more_urls (str ''http://%@a.com/'') = Inl (URIError ''URI malformed'')"
  "more_urls (str ''/x'') = Inr \<lparr>protocol = None, host = None\<rparr>"
  by (simp_all add: more_urls_def str_def)

text \<open>
  C3 as amended, at four URLs: one with protocol and host, one with a host and no
  protocol, one with neither, and one at which the parser throws.
\<close>

theorem keyFromUrl_host_required_witness:
  "keyFromUrl more_urls (str ''http://a.com/x'') None None
     = Inr (Buffer_from (str ''_http://a.com''))
   \<and> keyFromUrl more_urls (str ''//u@a.com/x'') None None
     = Inr (Buffer_from (str ''_https://a.com''))
   \<and> keyFromUrl more_urls (str ''/x'') (Some (str ''k'')) None
     = Inl (Error ''host is required'')
   \<and> keyFromUrl more_urls (str ''http://%@a.com/'') (Some (str ''k'')) None
     = Inl (URIError ''URI malformed'')"
  using
    keyFromUrl_host_required [of more_urls "str ''http://a.com/x''" None None
      "URIError ''''" "\<lparr>protocol = Some (str ''http:''), host = Some (str ''a.com'')\<rparr>"
      "str ''a.com''" "str ''http''"]
    keyFromUrl_host_required [of more_urls "str ''//u@a.com/x''" None None
      "URIError ''''" "\<lparr>protocol = None, host = Some (str ''a.com'')\<rparr>" "str ''a.com''" "[]"]
    keyFromUrl_host_required [of more_urls "str ''/x''" "Some (str ''k'')" None
      "URIError ''''" "\<lparr>protocol = None, host = None\<rparr>" "[]" "[]"]
    keyFromUrl_host_required [of more_urls "str ''http://%@a.com/''" "Some (str ''k'')" None
      "URIError ''URI malformed''" "\<lparr>protocol = None, host = None\<rparr>" "[]" "[]"]
  unfolding more_urls_simps
  by (simp add: truthy_def str_def)

text \<open>
  C3 as stated fails at the URL \<^verbatim>\<open>http://%@a.com/\<close>: the parser throws a
  \<^verbatim>\<open>URIError\<close>, which \<^verbatim>\<open>keyFromUrl\<close> does not catch, so the failure is not the
  \<^verbatim>\<open>Error("host is required")\<close> of a URL without a host.
\<close>

theorem keyFromUrl_parser_error_counterexample:
  "keyFromUrl more_urls (str ''http://%@a.com/'') None None = Inl (URIError ''URI malformed'')
   \<and> keyFromUrl more_urls (str ''http://%@a.com/'') None None
       \<noteq> Inl (Error ''host is required'')"
  by (simp add: keyFromUrl_def Let_def more_urls_simps)

section \<open>Decoding values\<close>

lemma toString_ascii: "unat b < 0x80 \<Longrightarrow> toString (b # bs) = ucast b # toString bs"
  by (simp add: toString_def decode1_def utf16_units_def unit_of_def)

lemma toString_Cons:
  "toString (b # bs) = (case decode1 b bs of (c, k) \<Rightarrow> utf16_units c @ toString (drop k bs))"
  by (simp add: toString_def split: prod.splits)

lemma decode2_bounds:
  "decode2 n bs = (c, k) \<Longrightarrow> 0xC2 \<le> n \<Longrightarrow> n \<le> 0xDF \<Longrightarrow> 0x80 \<le> c \<and> c < 0x10000"
  by (auto simp: decode2_def cont_def split: list.splits if_splits)

lemma decode3_bounds:
  "decode3 n bs = (c, k) \<Longrightarrow> 0xE0 \<le> n \<Longrightarrow> n \<le> 0xEF \<Longrightarrow> 0x80 \<le> c \<and> c < 0x10000"
  by (auto simp: decode3_def cont_def split: list.splits if_splits)

lemma decode4_bounds:
  "decode4 n bs = (c, k) \<Longrightarrow> 0xF0 \<le> n \<Longrightarrow> n \<le> 0xF4 \<Longrightarrow> 0x80 \<le> c \<and> c < 0x110000"
  by (auto simp: decode4_def cont_def split: list.splits if_splits)

text \<open>A first byte that is not continued is decoded on its own, to one code unit.\<close>

lemma decode2_not_first:
  "\<not> first_cont 0x80 0xBF bs \<Longrightarrow> decode2 n bs = (0xFFFD, 0)"
  by (cases bs) (simp_all add: decode2_def first_cont_def)

lemma decode3_not_first:
  assumes "\<not> first_cont (if n = 0xE0 then 0xA0 else 0x80) (if n = 0xED then 0x9F else 0xBF) bs"
  shows "decode3 n bs = (0xFFFD, 0)"
proof (cases bs)
  case Nil
  then show ?thesis by (simp add: decode3_def)
next
  case (Cons c1 r)
  with assms show ?thesis by (cases r) (simp_all add: decode3_def first_cont_def)
qed

lemma decode4_not_first:
  assumes "\<not> first_cont (if n = 0xF0 then 0x90 else 0x80) (if n = 0xF4 then 0x8F else 0xBF) bs"
  shows "decode4 n bs = (0xFFFD, 0)"
proof (cases bs)
  case Nil
  then show ?thesis by (simp add: decode4_def)
next
  case (Cons c1 r)
  show ?thesis
  proof (cases r)
    case Nil
    with Cons assms show ?thesis by (simp add: decode4_def first_cont_def)
  next
    case r: (Cons c2 r')
    with Cons assms show ?thesis by (cases r') (simp_all add: decode4_def first_cont_def)
  qed
qed

lemma decode1_not_continued:
  assumes "\<not> continued b bs"
  shows "decode1 b bs = (if unat b < 0x80 then unat b else 0xFFFD, 0)"
proof -
  consider "unat b < 0x80" | "0xC2 \<le> unat b" "unat b \<le> 0xDF"
    | "0xE0 \<le> unat b" "unat b \<le> 0xEF" | "0xF0 \<le> unat b" "unat b \<le> 0xF4"
    | "0x80 \<le> unat b" "unat b < 0xC2" | "0xF4 < unat b"
    by arith
  then show ?thesis
  proof cases
    case 1
    then show ?thesis by (simp add: decode1_def)
  next
    case 2
    with assms have "\<not> first_cont 0x80 0xBF bs" by (simp add: continued_def Let_def)
    with 2 show ?thesis by (simp add: decode1_def decode2_not_first)
  next
    case 3
    with assms have "\<not> first_cont (if unat b = 0xE0 then 0xA0 else 0x80)
        (if unat b = 0xED then 0x9F else 0xBF) bs"
      by (simp add: continued_def Let_def)
    with 3 show ?thesis by (simp add: decode1_def decode3_not_first)
  next
    case 4
    with assms have "\<not> first_cont (if unat b = 0xF0 then 0x90 else 0x80)
        (if unat b = 0xF4 then 0x8F else 0xBF) bs"
      by (simp add: continued_def Let_def)
    with 4 show ?thesis by (simp add: decode1_def decode4_not_first)
  next
    case 5
    then show ?thesis by (simp add: decode1_def)
  next
    case 6
    then show ?thesis by (simp add: decode1_def)
  qed
qed

lemma utf16_units_single: "c < 0x10000 \<Longrightarrow> utf16_units c = [unit_of c]"
  by (simp add: utf16_units_def)

lemma length_utf16_units: "length (utf16_units c) = (if c < 0x10000 then 1 else 2)"
  by (simp add: utf16_units_def)

lemma unpackValue_not_continued:
  assumes "\<not> continued b bs"
  shows "unpackValue (b # bs) = toString bs"
proof -
  have "toString (b # bs) = unit_of (if unat b < 0x80 then unat b else 0xFFFD) # toString bs"
    using decode1_not_continued [OF assms] unat_unit_bound [of "ucast b"]
    by (simp add: toString_Cons utf16_units_single)
  then show ?thesis by (simp add: unpackValue_def slice1_def)
qed

text \<open>A byte from \<^verbatim>\<open>80\<close> to \<^verbatim>\<open>BF\<close> that starts a sequence is decoded to U+FFFD.\<close>

lemma length_toString_continuation:
  "0x80 \<le> unat c \<Longrightarrow> unat c \<le> 0xBF \<Longrightarrow>
   length (toString (c # r)) = Suc (length (toString r))"
  by (simp add: toString_Cons decode1_def utf16_units_def)

text \<open>
  A first byte that is continued is decoded together with the \<open>k\<close> bytes after it that
  belong to its sequence, each of which is decoded to a code unit of its own when the
  first byte is stripped.
\<close>

lemma length_stripped_2:
  assumes "0xC2 \<le> n" "n \<le> 0xDF" "decode2 n bs = (c, k)" "0 < k"
  shows "c < 0x10000 \<and> k = 1
    \<and> length (toString bs) = Suc (length (toString (drop k bs)))"
proof -
  from assms obtain c1 r where bs: "bs = c1 # r" and c1: "cont 0x80 0xBF c1" and k: "k = 1"
    by (auto simp: decode2_def split: list.splits if_splits)
  have "c < 0x10000" using decode2_bounds [OF assms(3,1,2)] by simp
  moreover have "length (toString bs) = Suc (length (toString r))"
    unfolding bs using c1 by (intro length_toString_continuation) (simp_all add: cont_def)
  ultimately show ?thesis by (simp add: bs k)
qed

lemma cont_range:
  "cont lo hi c \<Longrightarrow> 0x80 \<le> lo \<Longrightarrow> hi \<le> 0xBF \<Longrightarrow> 0x80 \<le> unat c \<and> unat c \<le> 0xBF"
  by (simp add: cont_def)

lemma length_stripped_3:
  assumes "0xE0 \<le> n" "n \<le> 0xEF" "decode3 n bs = (c, k)" "0 < k"
  shows "c < 0x10000 \<and> length (toString bs) = k + length (toString (drop k bs))"
proof -
  have c: "c < 0x10000" using decode3_bounds [OF assms(3,1,2)] by simp
  from assms(3,4) obtain c1 r where bs: "bs = c1 # r"
    and c1: "cont (if n = 0xE0 then 0xA0 else 0x80) (if n = 0xED then 0x9F else 0xBF) c1"
    by (cases bs) (auto simp: decode3_def split: list.splits if_splits)
  have r1: "0x80 \<le> unat c1 \<and> unat c1 \<le> 0xBF"
    using c1 by (rule cont_range) simp_all
  have l1: "length (toString bs) = Suc (length (toString r))"
    unfolding bs using r1 by (intro length_toString_continuation) simp_all
  show ?thesis
  proof (cases "k = 1")
    case True
    with l1 c show ?thesis by (simp add: bs)
  next
    case False
    with assms(3,4) c1 obtain c2 r' where r: "r = c2 # r'" and c2: "cont 0x80 0xBF c2" and k: "k = 2"
      unfolding bs by (cases r) (auto simp: decode3_def split: if_splits)
    have "length (toString r) = Suc (length (toString r'))"
      unfolding r using c2 by (intro length_toString_continuation) (simp_all add: cont_def)
    with l1 c show ?thesis by (simp add: bs r k)
  qed
qed

lemma length_stripped_4:
  assumes "0xF0 \<le> n" "n \<le> 0xF4" "decode4 n bs = (c, k)" "0 < k"
  shows "(k < 3 \<longrightarrow> c < 0x10000) \<and> length (toString bs) = k + length (toString (drop k bs))"
proof -
  from assms(3,4) obtain c1 r where bs: "bs = c1 # r"
    and c1: "cont (if n = 0xF0 then 0x90 else 0x80) (if n = 0xF4 then 0x8F else 0xBF) c1"
    by (cases bs) (auto simp: decode4_def split: list.splits if_splits)
  have r1: "0x80 \<le> unat c1 \<and> unat c1 \<le> 0xBF"
    using c1 by (rule cont_range) simp_all
  have l1: "length (toString bs) = Suc (length (toString r))"
    unfolding bs using r1 by (intro length_toString_continuation) simp_all
  show ?thesis
  proof (cases "k = 1")
    case True
    with assms(3) c1 have "c = 0xFFFD"
      unfolding bs by (auto simp: decode4_def split: list.splits if_splits)
    with l1 True show ?thesis by (simp add: bs)
  next
    case k1: False
    with assms(3,4) c1 obtain c2 r' where r: "r = c2 # r'" and c2: "cont 0x80 0xBF c2"
      unfolding bs by (cases r) (auto simp: decode4_def split: list.splits if_splits)
    have l2: "length (toString r) = Suc (length (toString r'))"
      unfolding r using c2 by (intro length_toString_continuation) (simp_all add: cont_def)
    show ?thesis
    proof (cases "k = 2")
      case True
      with assms(3) c1 c2 have "c = 0xFFFD"
        unfolding bs r by (auto simp: decode4_def split: list.splits if_splits)
      with l1 l2 True show ?thesis by (simp add: bs r)
    next
      case False
      with k1 assms(3,4) c1 c2 obtain c3 r'' where r': "r' = c3 # r''"
        and c3: "cont 0x80 0xBF c3" and k: "k = 3"
        unfolding bs r by (cases r') (auto simp: decode4_def split: if_splits)
      have "length (toString r') = Suc (length (toString r''))"
        unfolding r' using c3 by (intro length_toString_continuation) (simp_all add: cont_def)
      with l1 l2 show ?thesis by (simp add: bs r r' k)
    qed
  qed
qed

lemma decode2_first:
  "first_cont 0x80 0xBF bs \<Longrightarrow> decode2 n bs = (c, k) \<Longrightarrow> 0 < k"
  by (cases bs) (auto simp: decode2_def first_cont_def)

lemma decode3_first:
  assumes "first_cont (if n = 0xE0 then 0xA0 else 0x80) (if n = 0xED then 0x9F else 0xBF) bs"
    and "decode3 n bs = (c, k)"
  shows "0 < k"
proof (cases bs)
  case Nil
  with assms show ?thesis by (simp add: first_cont_def)
next
  case (Cons c1 r)
  with assms show ?thesis
    by (cases r) (auto simp: decode3_def first_cont_def split: if_splits)
qed

lemma decode4_first:
  assumes "first_cont (if n = 0xF0 then 0x90 else 0x80) (if n = 0xF4 then 0x8F else 0xBF) bs"
    and "decode4 n bs = (c, k)"
  shows "0 < k"
proof (cases bs)
  case Nil
  with assms show ?thesis by (simp add: first_cont_def)
next
  case (Cons c1 r)
  show ?thesis
  proof (cases r)
    case Nil
    with Cons assms show ?thesis by (auto simp: decode4_def first_cont_def split: if_splits)
  next
    case r: (Cons c2 r')
    with Cons assms show ?thesis
      by (cases r') (auto simp: decode4_def first_cont_def split: if_splits)
  qed
qed

lemma decode1_continued:
  assumes "continued b bs" "decode1 b bs = (c, k)"
  shows "0 < k \<and> (k < 3 \<longrightarrow> c < 0x10000)
    \<and> length (toString bs) = k + length (toString (drop k bs))"
proof -
  from assms(1) consider
      "0xC2 \<le> unat b" "unat b \<le> 0xDF" "first_cont 0x80 0xBF bs"
    | "0xE0 \<le> unat b" "unat b \<le> 0xEF"
      "first_cont (if unat b = 0xE0 then 0xA0 else 0x80)
         (if unat b = 0xED then 0x9F else 0xBF) bs"
    | "0xF0 \<le> unat b" "unat b \<le> 0xF4"
      "first_cont (if unat b = 0xF0 then 0x90 else 0x80)
         (if unat b = 0xF4 then 0x8F else 0xBF) bs"
    unfolding continued_def Let_def by blast
  then show ?thesis
  proof cases
    case 1
    with assms(2) have d: "decode2 (unat b) bs = (c, k)" by (simp add: decode1_def)
    have k: "0 < k" using 1(3) d by (rule decode2_first)
    from length_stripped_2 [OF 1(1,2) d k] k show ?thesis by simp
  next
    case 2
    with assms(2) have d: "decode3 (unat b) bs = (c, k)" by (simp add: decode1_def)
    have k: "0 < k" using 2(3) d by (rule decode3_first)
    from length_stripped_3 [OF 2(1,2) d k] k show ?thesis by simp
  next
    case 3
    with assms(2) have d: "decode4 (unat b) bs = (c, k)" by (simp add: decode1_def)
    have k: "0 < k" using 3(3) d by (rule decode4_first)
    from length_stripped_4 [OF 3(1,2) d k] k show ?thesis by simp
  qed
qed

lemma unpackValue_continued:
  assumes "continued b bs"
  shows "unpackValue (b # bs) \<noteq> toString bs"
proof -
  obtain c k where d: "decode1 b bs = (c, k)" by (cases "decode1 b bs")
  from decode1_continued [OF assms d]
  have k: "0 < k" and c: "k < 3 \<longrightarrow> c < 0x10000"
    and l: "length (toString bs) = k + length (toString (drop k bs))"
    by simp_all
  have "length (unpackValue (b # bs))
      = length (utf16_units c) - 1 + length (toString (drop k bs))"
    using d by (simp add: unpackValue_def slice1_def toString_Cons length_utf16_units)
  also have "\<dots> < k + length (toString (drop k bs))"
    using k c by (simp add: length_utf16_units) arith
  finally have "length (unpackValue (b # bs)) < length (toString bs)"
    by (simp add: l)
  then show ?thesis by auto
qed

text \<open>
  C5, as the code has it. \<^verbatim>\<open>unpackValue\<close> never fails: of a zero-length value it
  returns the empty string. Of any other value it strips exactly the first byte and
  decodes the remainder as text, unless the first byte starts a UTF-8 sequence of several
  bytes that the second byte continues, and only then: it decodes the value and strips
  the first code unit of the text.
\<close>

theorem unpackValue_strips_marker:
  "unpackValue [] = []
   \<and> (unpackValue (b # bs) = toString bs \<longleftrightarrow> \<not> continued b bs)
   \<and> unpackValue (b # bs) = slice1 (toString (b # bs))"
  using unpackValue_not_continued [of b bs] unpackValue_continued [of b bs]
  by (auto simp: unpackValue_def slice1_def toString_Nil)

text \<open>
  C5 as amended, at the values \<^verbatim>\<open>01 64 61\<close> (a marker and two letters),
  \<^verbatim>\<open>FF C3 A9\<close> (a first byte that starts no sequence) and \<^verbatim>\<open>C3 41 42\<close> (a first
  byte that the second does not continue).
\<close>

theorem unpackValue_strips_marker_witness:
  "unpackValue [0x01, 0x64, 0x61] = toString [0x64, 0x61]
   \<and> unpackValue [0xFF, 0xC3, 0xA9] = toString [0xC3, 0xA9]
   \<and> unpackValue [0xC3, 0x41, 0x42] = toString [0x41, 0x42]"
  using unpackValue_strips_marker [of "0x01" "[0x64, 0x61]"]
    unpackValue_strips_marker [of "0xFF" "[0xC3, 0xA9]"]
    unpackValue_strips_marker [of "0xC3" "[0x41, 0x42]"]
  by (simp add: continued_def first_cont_def cont_def)

text \<open>
  C5 as stated fails twice. Of the zero-length value \<^verbatim>\<open>unpackValue\<close> returns the empty
  string, where the claim has an error. Of the two bytes \<^verbatim>\<open>C3 A9\<close> (the letter
  e-acute in UTF-8) it returns the empty string, because it decodes before it strips and
  strips a code unit; stripping one byte and decoding the remainder \<^verbatim>\<open>A9\<close> gives
  U+FFFD.
\<close>

theorem unpackValue_counterexample:
  "unpackValue [] = [] \<and> unpackValue [0xC3, 0xA9] = []
   \<and> toString (drop 1 [0xC3, 0xA9]) = [0xFFFD]"
  by (simp add: unpackValue_def slice1_def toString_def decode1_def decode2_def cont_def
      utf16_units_def unit_of_def)

section \<open>The bounds of a scan\<close>

lemma origin_inj:
  assumes "0x2F \<notin> set (effective_protocol p)" "0x2F \<notin> set (effective_protocol q)"
    and "truthy (host p)" "truthy (host q)" "origin p = origin q"
  shows "effective_protocol p = effective_protocol q \<and> host p = host q"
proof -
  obtain h where h: "host p = Some h" using assms(3) by (auto simp: truthy_def split: option.splits)
  obtain g where g: "host q = Some g" using assms(4) by (auto simp: truthy_def split: option.splits)
  have eq: "effective_protocol p @ 0x2F # 0x2F # h = effective_protocol q @ 0x2F # 0x2F # g"
    using assms(5) by (simp add: origin_def h g str_def)
  have "takeWhile (\<lambda>u. u \<noteq> 0x2F) (effective_protocol p @ 0x2F # 0x2F # h) = effective_protocol p"
    using assms(1) by (auto simp: takeWhile_tail)
  moreover
  have "takeWhile (\<lambda>u. u \<noteq> 0x2F) (effective_protocol q @ 0x2F # 0x2F # g) = effective_protocol q"
    using assms(2) by (auto simp: takeWhile_tail)
  ultimately have "effective_protocol p = effective_protocol q" using eq by simp
  with eq show ?thesis by (simp add: h g)
qed

lemma scan_range_prefix:
  assumes "in_scan_range a (a @ [1]) k" "\<forall>b\<in>set a. 1 < b"
  shows "takeWhile (\<lambda>b. 1 < b) k = a"
proof -
  from assms(1) consider "k = a" | r where "k = a @ 0 # r" | "k = a @ [1]"
    using scan_range_iff [of a k] by (auto simp: in_scan_range_def)
  then show ?thesis
  proof cases
    case 1
    then show ?thesis using takeWhile_gt1 [OF assms(2), of "[]"] by simp
  next
    case 2
    then show ?thesis using takeWhile_gt1 [OF assms(2), of "0 # r"] by simp
  next
    case 3
    then show ?thesis using takeWhile_gt1 [OF assms(2), of "[1]"] by simp
  qed
qed

lemma suffix_of_cases:
  "suffix_of key None = [] \<or> (\<exists>k. k \<noteq> [] \<and> key = Some k \<and> suffix_of key None = hostKeySeparator @ k)"
  by (auto simp: suffix_of_def split: option.splits)

lemma entry_key_prefix:
  assumes "\<forall>b\<in>set (Buffer_from s). 1 < b"
  shows "takeWhile (\<lambda>b. 1 < b) (Buffer_from (s @ suffix_of key None)) = Buffer_from s"
proof -
  consider "suffix_of key None = []"
    | k where "suffix_of key None = hostKeySeparator @ k"
    using suffix_of_cases [of key] by auto
  then show ?thesis
  proof cases
    case 1
    then show ?thesis using takeWhile_gt1 [OF assms, of "[]"] by simp
  next
    case 2
    then show ?thesis
      using takeWhile_gt1 [OF assms, of "[0, 1] @ Buffer_from k"]
      by (simp add: Buffer_from_sep_key)
  qed
qed

lemma two_sites_a:
  "two_sites (str ''https://a.com'')
     = Inr \<lparr>protocol = Some (str ''https:''), host = Some (str ''a.com'')\<rparr>"
  by (simp add: two_sites_def)

lemma two_sites_b:
  "two_sites (str ''https://b.com'')
     = Inr \<lparr>protocol = Some (str ''https:''), host = Some (str ''b.com'')\<rparr>"
  by (simp add: two_sites_def str_def)

lemma origin_a:
  "origin \<lparr>protocol = Some (str ''https:''), host = Some (str ''a.com'')\<rparr> = str ''_https://a.com''"
  by (simp add: origin_def effective_protocol_def str_def)

lemma origin_b:
  "origin \<lparr>protocol = Some (str ''https:''), host = Some (str ''b.com'')\<rparr> = str ''_https://b.com''"
  by (simp add: origin_def effective_protocol_def str_def)

lemma truthy_host_a:
  "truthy (host \<lparr>protocol = Some (str ''https:''), host = Some (str ''a.com'')\<rparr>)"
  by (simp add: truthy_def str_def)

lemma Buffer_from_origin_a:
  "Buffer_from (str ''_https://a.com'')
     = [95, 104, 116, 116, 112, 115, 58, 47, 47, 97, 46, 99, 111, 109]"
  by (simp add: str_def is_high_def is_low_def utf8_bytes_def byte_of_def)

lemma Buffer_from_origin_b:
  "Buffer_from (str ''_https://b.com'')
     = [95, 104, 116, 116, 112, 115, 58, 47, 47, 98, 46, 99, 111, 109]"
  by (simp add: str_def is_high_def is_low_def utf8_bytes_def byte_of_def)

text \<open>
  C1, as the code has it. For a URL that parses to a non-empty host, the bounds of the
  scan of \<^verbatim>\<open>readAll\<close> are the origin key \<open>lo\<close> and \<open>lo\<close> followed by the byte
  \<^verbatim>\<open>01\<close>. Every key \<^verbatim>\<open>keyFromUrl(url, k)\<close> lies within them in the bytewise order:
  it is \<open>lo\<close>, \<^verbatim>\<open>00 01\<close> and the bytes of \<open>k\<close> when \<open>k\<close> is not empty, and \<open>lo\<close> itself
  when \<open>k\<close> is empty. The keys within the bounds are exactly \<open>lo\<close>, \<open>lo\<close> followed by
  the one byte \<^verbatim>\<open>01\<close>, and \<open>lo\<close> followed by the byte \<^verbatim>\<open>00\<close> and any bytes. So
  every key of another URL (with or without an application key) lies outside the bounds
  when the two origin keys differ and have no byte \<^verbatim>\<open>00\<close> or \<^verbatim>\<open>01\<close>; they do for
  parsed URLs that differ in protocol or host and are as \<open>parsed_ok\<close> says.
\<close>

theorem scan_bounds_contain_origin:
  assumes "parse url = Inr parsed" "truthy (host parsed)"
  shows "\<exists>lo hi.
    keyFromUrl parse url None None = Inr lo
    \<and> keyFromUrl parse url (Some [1]) (Some []) = Inr hi
    \<and> lo = Buffer_from (origin parsed) \<and> hi = lo @ [1]
    \<and> (\<forall>k. \<exists>key. keyFromUrl parse url (Some k) None = Inr key \<and> in_scan_range lo hi key
          \<and> key = (if k = [] then lo else lo @ [0, 1] @ Buffer_from k))
    \<and> (\<forall>key. in_scan_range lo hi key
          \<longleftrightarrow> key = lo \<or> key = lo @ [1] \<or> (\<exists>r. key = lo @ 0 # r))
    \<and> (\<forall>url2 parsed2 k' key.
          parse url2 = Inr parsed2
          \<and> Buffer_from (origin parsed2) \<noteq> lo
          \<and> (\<forall>b\<in>set lo. 1 < b) \<and> (\<forall>b\<in>set (Buffer_from (origin parsed2)). 1 < b)
          \<and> keyFromUrl parse url2 k' None = Inr key
          \<longrightarrow> \<not> in_scan_range lo hi key)
    \<and> (\<forall>url2 parsed2 k' key.
          parse url2 = Inr parsed2
          \<and> parsed_ok parsed \<and> parsed_ok parsed2
          \<and> (effective_protocol parsed2, host parsed2) \<noteq> (effective_protocol parsed, host parsed)
          \<and> keyFromUrl parse url2 k' None = Inr key
          \<longrightarrow> \<not> in_scan_range lo hi key)"
proof -
  define lo where "lo = Buffer_from (origin parsed)"
  have key: "keyFromUrl parse url k sep = Inr (Buffer_from (origin parsed @ suffix_of k sep))"
    for k sep
    using assms by (rule keyFromUrl_host)
  have 1: "keyFromUrl parse url None None = Inr lo"
    by (simp add: key suffix_of_def lo_def)
  have 2: "keyFromUrl parse url (Some [1]) (Some []) = Inr (lo @ [1])"
    by (simp add: key suffix_of_def lo_def Buffer_from_snoc1)
  have iff: "in_scan_range lo (lo @ [1]) key
      \<longleftrightarrow> key = lo \<or> key = lo @ [1] \<or> (\<exists>r. key = lo @ 0 # r)" for key
    unfolding in_scan_range_def using scan_range_iff [of lo key] by blast
  have 3: "\<exists>key. keyFromUrl parse url (Some k) None = Inr key \<and> in_scan_range lo (lo @ [1]) key
      \<and> key = (if k = [] then lo else lo @ [0, 1] @ Buffer_from k)" for k
  proof (cases "k = []")
    case True
    then show ?thesis by (simp add: key suffix_of_def lo_def [symmetric] iff)
  next
    case False
    have "in_scan_range lo (lo @ [1]) (lo @ 0 # 1 # Buffer_from k)"
      unfolding iff by blast
    with False show ?thesis
      by (simp add: key suffix_of_def Buffer_from_sep_key lo_def [symmetric])
  qed
  have 4: "\<not> in_scan_range lo (lo @ [1]) key"
    if p2: "parse url2 = Inr parsed2"
      and ne: "Buffer_from (origin parsed2) \<noteq> lo"
      and gt1: "\<forall>b\<in>set lo. 1 < b"
      and gt2: "\<forall>b\<in>set (Buffer_from (origin parsed2)). 1 < b"
      and k2: "keyFromUrl parse url2 k' None = Inr key"
    for url2 parsed2 k' key
  proof
    assume range: "in_scan_range lo (lo @ [1]) key"
    have h2: "truthy (host parsed2)"
      using k2 p2 keyFromUrl_no_host [of parse url2 parsed2 k' None] by auto
    have "key = Buffer_from (origin parsed2 @ suffix_of k' None)"
      using k2 p2 h2 keyFromUrl_host [of parse url2 parsed2 k' None] by simp
    then have "takeWhile (\<lambda>b. 1 < b) key = Buffer_from (origin parsed2)"
      using entry_key_prefix [OF gt2] by simp
    moreover have "takeWhile (\<lambda>b. 1 < b) key = lo"
      using range gt1 by (rule scan_range_prefix)
    ultimately show False using ne by simp
  qed
  have 5: "\<not> in_scan_range lo (lo @ [1]) key"
    if p2: "parse url2 = Inr parsed2"
      and ok: "parsed_ok parsed" "parsed_ok parsed2"
      and ne: "(effective_protocol parsed2, host parsed2)
              \<noteq> (effective_protocol parsed, host parsed)"
      and k2: "keyFromUrl parse url2 k' None = Inr key"
    for url2 parsed2 k' key
  proof -
    have h2: "truthy (host parsed2)"
      using k2 p2 keyFromUrl_no_host [of parse url2 parsed2 k' None] by auto
    have gt1: "\<forall>b\<in>set lo. 1 < b"
      unfolding lo_def using ok(1) by (intro Buffer_from_gt1) (simp_all add: parsed_ok_def)
    have gt2: "\<forall>b\<in>set (Buffer_from (origin parsed2)). 1 < b"
      using ok(2) by (intro Buffer_from_gt1) (simp_all add: parsed_ok_def)
    have "Buffer_from (origin parsed2) \<noteq> lo"
    proof
      assume "Buffer_from (origin parsed2) = lo"
      then have "origin parsed2 = origin parsed"
        unfolding lo_def using ok by (intro Buffer_from_inj) (simp_all add: parsed_ok_def)
      then show False
        using origin_inj [of parsed2 parsed] ok ne h2 assms(2) by (simp add: parsed_ok_def)
    qed
    then show ?thesis using p2 gt1 gt2 k2 by (intro 4)
  qed
  show ?thesis
  proof (rule exI [of _ lo], rule exI [of _ "lo @ [1]"], intro conjI)
    show "keyFromUrl parse url None None = Inr lo" by (rule 1)
    show "keyFromUrl parse url (Some [1]) (Some []) = Inr (lo @ [1])" by (rule 2)
    show "lo = Buffer_from (origin parsed)" by (rule lo_def)
    show "lo @ [1] = lo @ [1]" ..
    show "\<forall>k. \<exists>key. keyFromUrl parse url (Some k) None = Inr key
        \<and> in_scan_range lo (lo @ [1]) key
        \<and> key = (if k = [] then lo else lo @ [0, 1] @ Buffer_from k)"
      by (intro allI) (rule 3)
    show "\<forall>key. in_scan_range lo (lo @ [1]) key
        \<longleftrightarrow> key = lo \<or> key = lo @ [1] \<or> (\<exists>r. key = lo @ 0 # r)"
      by (intro allI) (rule iff)
    show "\<forall>url2 parsed2 k' key.
        parse url2 = Inr parsed2
        \<and> Buffer_from (origin parsed2) \<noteq> lo
        \<and> (\<forall>b\<in>set lo. 1 < b) \<and> (\<forall>b\<in>set (Buffer_from (origin parsed2)). 1 < b)
        \<and> keyFromUrl parse url2 k' None = Inr key
        \<longrightarrow> \<not> in_scan_range lo (lo @ [1]) key"
      by (intro allI impI, elim conjE) (rule 4)
    show "\<forall>url2 parsed2 k' key.
        parse url2 = Inr parsed2
        \<and> parsed_ok parsed \<and> parsed_ok parsed2
        \<and> (effective_protocol parsed2, host parsed2) \<noteq> (effective_protocol parsed, host parsed)
        \<and> keyFromUrl parse url2 k' None = Inr key
        \<longrightarrow> \<not> in_scan_range lo (lo @ [1]) key"
      by (intro allI impI, elim conjE) (rule 5)
  qed
qed

text \<open>
  C1 as amended, at the origin \<^verbatim>\<open>https://a.com\<close>: its key \<^verbatim>\<open>theme\<close> is within the
  bounds, the key \<^verbatim>\<open>theme\<close> of \<^verbatim>\<open>https://b.com\<close> is not.
\<close>

theorem scan_bounds_contain_origin_witness:
  "in_scan_range (Buffer_from (str ''_https://a.com'')) (Buffer_from (str ''_https://a.com'') @ [1])
     (Buffer_from (str ''_https://a.com'') @ [0, 1] @ Buffer_from (str ''theme''))
   \<and> \<not> in_scan_range (Buffer_from (str ''_https://a.com'')) (Buffer_from (str ''_https://a.com'') @ [1])
     (Buffer_from (str ''_https://b.com'') @ [0, 1] @ Buffer_from (str ''theme''))"
proof -
  from scan_bounds_contain_origin [of two_sites "str ''https://a.com''"
      "\<lparr>protocol = Some (str ''https:''), host = Some (str ''a.com'')\<rparr>",
      OF two_sites_a truthy_host_a]
  obtain lo hi where lo: "lo = Buffer_from (str ''_https://a.com'')" and hi: "hi = lo @ [1]"
    and own: "\<forall>k. \<exists>key. keyFromUrl two_sites (str ''https://a.com'') (Some k) None = Inr key
          \<and> in_scan_range lo hi key
          \<and> key = (if k = [] then lo else lo @ [0, 1] @ Buffer_from k)"
    and other: "\<forall>url2 parsed2 k' key.
          two_sites url2 = Inr parsed2
          \<and> Buffer_from (origin parsed2) \<noteq> lo
          \<and> (\<forall>b\<in>set lo. 1 < b) \<and> (\<forall>b\<in>set (Buffer_from (origin parsed2)). 1 < b)
          \<and> keyFromUrl two_sites url2 k' None = Inr key
          \<longrightarrow> \<not> in_scan_range lo hi key"
    unfolding origin_a by (elim exE conjE) (rule that, assumption+)
  have theme: "str ''theme'' \<noteq> []" by (simp add: str_def)
  from own obtain key where "in_scan_range lo hi key"
    "key = (if str ''theme'' = [] then lo else lo @ [0, 1] @ Buffer_from (str ''theme''))"
    by blast
  with theme have 1: "in_scan_range lo hi (lo @ [0, 1] @ Buffer_from (str ''theme''))"
    by simp
  have kb: "keyFromUrl two_sites (str ''https://b.com'') (Some (str ''theme'')) None
      = Inr (Buffer_from (str ''_https://b.com'') @ [0, 1] @ Buffer_from (str ''theme''))"
    using keyFromUrl_host [of two_sites "str ''https://b.com''"
        "\<lparr>protocol = Some (str ''https:''), host = Some (str ''b.com'')\<rparr>"
        "Some (str ''theme'')" None, OF two_sites_b] theme
    unfolding origin_b
    by (simp add: truthy_def suffix_of_def Buffer_from_sep_key) (simp add: str_def)
  have ne: "Buffer_from (origin \<lparr>protocol = Some (str ''https:''), host = Some (str ''b.com'')\<rparr>)
      \<noteq> lo"
    unfolding origin_b lo Buffer_from_origin_a Buffer_from_origin_b by simp
  have gt1: "\<forall>b\<in>set lo. 1 < b"
    unfolding lo Buffer_from_origin_a by simp
  have gt2: "\<forall>b\<in>set (Buffer_from
      (origin \<lparr>protocol = Some (str ''https:''), host = Some (str ''b.com'')\<rparr>)). 1 < b"
    unfolding origin_b Buffer_from_origin_b by simp
  from other two_sites_b ne gt1 gt2 kb have 2: "\<not> in_scan_range lo hi
      (Buffer_from (str ''_https://b.com'') @ [0, 1] @ Buffer_from (str ''theme''))"
    by blast
  from 1 2 show ?thesis by (simp add: lo hi)
qed

lemma bracket_hosts_simps:
  "bracket_hosts (str ''http://[a]/'')
     = Inr \<lparr>protocol = Some (str ''http:''), host = Some (str ''[a]'')\<rparr>"
  "bracket_hosts (str ''http://[a]'' @ [0] @ str '']/'')
     = Inr \<lparr>protocol = Some (str ''http:''), host = Some (str ''[a]'' @ [0] @ str '']'')\<rparr>"
  "bracket_hosts (str ''http://[a'' @ [0, 1] @ str ''b]/'')
     = Inr \<lparr>protocol = Some (str ''http:''), host = Some (str ''[a'' @ [0, 1] @ str ''b]'')\<rparr>"
  by (simp_all add: bracket_hosts_def str_def)

text \<open>
  C1 as stated fails twice. The URL \<^verbatim>\<open>http://[a]/\<close> has the host \<^verbatim>\<open>[a]\<close>, and the
  URL with the host \<^verbatim>\<open>[a]\<close>, NUL, \<^verbatim>\<open>]\<close> is of another origin; yet the key \<^verbatim>\<open>k\<close> of
  the second lies within the bounds of the first, since its origin key is that of the
  first followed by the byte \<^verbatim>\<open>00\<close>. And the key of the empty application key is the
  origin key, with no separator after it.
\<close>

theorem scan_bounds_counterexample:
  "keyFromUrl bracket_hosts (str ''http://[a]/'') None None
     = Inr (Buffer_from (str ''_http://[a]''))
   \<and> keyFromUrl bracket_hosts (str ''http://[a]/'') (Some [1]) (Some [])
     = Inr (Buffer_from (str ''_http://[a]'') @ [1])
   \<and> keyFromUrl bracket_hosts (str ''http://[a]'' @ [0] @ str '']/'') (Some (str ''k'')) None
     = Inr (Buffer_from (str ''_http://[a]'') @ [0, 93, 0, 1, 107])
   \<and> in_scan_range (Buffer_from (str ''_http://[a]'')) (Buffer_from (str ''_http://[a]'') @ [1])
       (Buffer_from (str ''_http://[a]'') @ [0, 93, 0, 1, 107])
   \<and> keyFromUrl bracket_hosts (str ''http://[a]/'') (Some []) None
     = Inr (Buffer_from (str ''_http://[a]''))
   \<and> Buffer_from (str ''_http://[a]'') \<noteq> Buffer_from (str ''_http://[a]'') @ [0, 1] @ Buffer_from []"
  unfolding keyFromUrl_def bracket_hosts_simps Let_def
  by (simp add: truthy_def codec_eval in_scan_range_def)

section \<open>Recovering the application key\<close>

lemma split_from_no_match:
  "sep \<noteq> [] \<Longrightarrow> \<not> includes_js s sep \<Longrightarrow> split_from sep cur s = [cur @ s]"
  by (induction s arbitrary: cur) simp_all

lemma take2_append_sep:
  "take 2 (x # s) \<noteq> [0, 1] \<Longrightarrow> take 2 (x # s @ (0 :: code_unit) # 1 # k) \<noteq> [0, 1]"
  by (cases s) auto

lemma split_from_first_match:
  "\<not> includes_js s hostKeySeparator \<Longrightarrow>
   split_from hostKeySeparator cur (s @ hostKeySeparator @ k)
     = (cur @ s) # split_from hostKeySeparator [] k"
proof (induction s arbitrary: cur)
  case Nil
  show ?case by (simp add: hostKeySeparator_def)
next
  case (Cons x s)
  then have "take 2 (x # s) \<noteq> [0, 1]" "\<not> includes_js s hostKeySeparator"
    by (simp_all add: hostKeySeparator_def)
  then show ?case
    using Cons.IH [of "cur @ [x]"] take2_append_sep [of x s k]
    by (simp add: hostKeySeparator_def)
qed

lemma split_origin_key:
  "\<not> includes_js s hostKeySeparator \<Longrightarrow> \<not> includes_js k hostKeySeparator \<Longrightarrow>
   split (s @ hostKeySeparator @ k) hostKeySeparator = [s, k]"
  using split_from_first_match [of s "[]" k] split_from_no_match [of hostKeySeparator k "[]"]
  by (simp add: split_def) (simp add: hostKeySeparator_def)

lemma split_no_sep:
  "\<not> includes_js s hostKeySeparator \<Longrightarrow> split s hostKeySeparator = [s]"
  using split_from_no_match [of hostKeySeparator s "[]"]
  by (simp add: split_def) (simp add: hostKeySeparator_def)

lemma well_formed_Cons:
  "\<not> is_high u \<Longrightarrow> \<not> is_low u \<Longrightarrow> well_formed (u # s) = well_formed s"
  by (cases s) simp_all

lemma well_formed_append: "well_formed a \<Longrightarrow> well_formed b \<Longrightarrow> well_formed (a @ b)"
proof (induction a rule: well_formed.induct)
  case 1
  then show ?case by simp
next
  case (2 u)
  then show ?case by (simp add: well_formed_Cons)
next
  case (3 u v us)
  then show ?case by (simp split: if_splits)
qed

lemma well_formed_separator: "well_formed hostKeySeparator"
  by (simp add: hostKeySeparator_def is_high_unat is_low_unat)

lemma not_includes_a: "\<not> includes_js (str ''_https://a.com'') hostKeySeparator"
  by (simp add: str_def hostKeySeparator_def)

text \<open>
  What \<^verbatim>\<open>Buffer.from\<close> encodes is the well-formed string: decoding gives it back, and it
  has the separator only where the string has it.
\<close>

lemma not_surrogate_FFFD: "\<not> is_high 0xFFFD" "\<not> is_low 0xFFFD"
  by (simp_all add: is_high_unat is_low_unat)

lemma well_formed_toWellFormed: "well_formed (toWellFormed s)"
proof (induction s rule: toWellFormed.induct)
  case 1
  show ?case by simp
next
  case (2 u)
  show ?case by (simp add: not_surrogate_FFFD)
next
  case (3 u v us)
  then show ?case by (simp add: well_formed_Cons not_surrogate_FFFD)
qed

lemma Buffer_from_FFFD: "Buffer_from [0xFFFD] = replacement_bytes"
  by (simp add: not_surrogate_FFFD utf8_bytes_def byte_of_def replacement_bytes_def)

lemma Buffer_from_toWellFormed: "Buffer_from (toWellFormed s) = Buffer_from s"
proof (induction s rule: toWellFormed.induct)
  case 1
  show ?case by simp
next
  case (2 u)
  show ?case using Buffer_from_FFFD by simp
next
  case (3 u v us)
  show ?case
  proof (cases "is_high u \<and> is_low v")
    case True
    with 3 show ?thesis by simp
  next
    case pair: False
    show ?thesis
    proof (cases "is_high u \<or> is_low u")
      case True
      with pair 3 have "Buffer_from (toWellFormed (v # us)) = Buffer_from (v # us)" by simp
      with pair True show ?thesis
        using Buffer_from_Cons [of "0xFFFD" "toWellFormed (v # us)"] Buffer_from_FFFD
        by (auto simp: not_surrogate_FFFD)
    next
      case False
      with pair 3 have "Buffer_from (toWellFormed (v # us)) = Buffer_from (v # us)" by simp
      with pair False show ?thesis
        using Buffer_from_Cons [of u "toWellFormed (v # us)"] by auto
    qed
  qed
qed

lemma toString_Buffer_from_any:
  "toString (Buffer_from s @ rest) = toWellFormed s @ toString rest"
  using toString_Buffer_from_append [OF well_formed_toWellFormed, of s rest]
  by (simp add: Buffer_from_toWellFormed)

lemma surrogate_gt1: "is_high u \<or> is_low u \<Longrightarrow> 1 < u"
  by (auto simp: is_high_unat is_low_unat unit_gt1)

lemma toWellFormed_units:
  "list_all2 (\<lambda>a b. a = b \<or> (1 < a \<and> 1 < b)) (toWellFormed s) s"
proof (induction s rule: toWellFormed.induct)
  case 1
  show ?case by simp
next
  case (2 u)
  show ?case using surrogate_gt1 [of u] by simp
next
  case (3 u v us)
  then show ?case using surrogate_gt1 [of u] by simp
qed

lemma includes_js_units:
  "list_all2 (\<lambda>a b. a = b \<or> (1 < a \<and> 1 < b)) x y \<Longrightarrow> includes_js x hostKeySeparator \<Longrightarrow>
   includes_js y hostKeySeparator"
proof (induction x y rule: list_all2_induct)
  case Nil
  then show ?case by simp
next
  case (Cons a x b y)
  from Cons.prems have "take 2 (a # x) = [0, 1] \<or> includes_js x hostKeySeparator"
    by (simp add: hostKeySeparator_def)
  then show ?case
  proof
    assume "take 2 (a # x) = [0, 1]"
    then obtain x' where a: "a = 0" and x: "x = 1 # x'" by (cases x) auto
    from Cons.hyps(2) x obtain b' y' where y: "y = b' # y'" and "1 = b' \<or> (1 < (1 :: code_unit) \<and> 1 < b')"
      by (cases y) auto
    then have "b' = 1" by auto
    moreover from Cons.hyps(1) a have "b = 0" by auto
    ultimately show ?thesis by (simp add: y hostKeySeparator_def)
  next
    assume "includes_js x hostKeySeparator"
    then show ?thesis using Cons.IH by simp
  qed
qed

lemma includes_js_toWellFormed:
  "\<not> includes_js s hostKeySeparator \<Longrightarrow> \<not> includes_js (toWellFormed s) hostKeySeparator"
  using includes_js_units [OF toWellFormed_units] by blast

text \<open>
  C2, as the code has it. For a URL that parses to a non-empty host, whose origin string
  does not contain the separator, and an application key \<open>k\<close> that is not empty, has no
  unpaired surrogate and does not contain the separator, splitting the key
  \<^verbatim>\<open>keyFromUrl(url, k)\<close> on the separator and taking the second piece gives \<open>k\<close>.
\<close>

theorem actualKey_recovers_key:
  assumes "parse url = Inr parsed" "truthy (host parsed)"
    and "\<not> includes_js (origin parsed) hostKeySeparator"
    and "k \<noteq> []" "well_formed k" "\<not> includes_js k hostKeySeparator"
  shows "\<exists>key. keyFromUrl parse url (Some k) None = Inr key \<and> actualKey key = Some k"
proof -
  let ?o = "origin parsed"
  have key: "keyFromUrl parse url (Some k) None = Inr (Buffer_from ?o @ [0, 1] @ Buffer_from k)"
    using assms(1,2,4) by (simp add: keyFromUrl_host suffix_of_def Buffer_from_sep_key)
  have "toString ([0, 1] @ Buffer_from k) = hostKeySeparator @ k"
    using toString_Buffer_from [OF assms(5)]
    by (simp add: toString_ascii hostKeySeparator_def)
  then have "toString (Buffer_from ?o @ [0, 1] @ Buffer_from k)
      = toWellFormed ?o @ hostKeySeparator @ k"
    by (simp only: toString_Buffer_from_any)
  moreover have "\<not> includes_js (toWellFormed ?o) hostKeySeparator"
    using assms(3) by (rule includes_js_toWellFormed)
  ultimately have "actualKey (Buffer_from ?o @ [0, 1] @ Buffer_from k) = Some k"
    using assms(6) by (simp add: actualKey_def split_origin_key)
  with key show ?thesis by simp
qed

text \<open>C2 as amended, at \<^verbatim>\<open>https://a.com\<close> and the key \<^verbatim>\<open>theme\<close>.\<close>

theorem actualKey_recovers_key_witness:
  "\<exists>key. keyFromUrl two_sites (str ''https://a.com'') (Some (str ''theme'')) None = Inr key
     \<and> actualKey key = Some (str ''theme'')"
proof (rule actualKey_recovers_key)
  show "two_sites (str ''https://a.com'')
      = Inr \<lparr>protocol = Some (str ''https:''), host = Some (str ''a.com'')\<rparr>"
    by (rule two_sites_a)
  show "truthy (host \<lparr>protocol = Some (str ''https:''), host = Some (str ''a.com'')\<rparr>)"
    by (rule truthy_host_a)
  show "\<not> includes_js (origin \<lparr>protocol = Some (str ''https:''), host = Some (str ''a.com'')\<rparr>)
      hostKeySeparator"
    unfolding origin_a by (rule not_includes_a)
  show "str ''theme'' \<noteq> []" by (simp add: str_def)
  show "well_formed (str ''theme'')" by (simp add: str_def is_high_def is_low_def)
  show "\<not> includes_js (str ''theme'') hostKeySeparator"
    by (simp add: str_def hostKeySeparator_def)
qed

text \<open>
  C2 as stated fails for three kinds of application key, here at \<^verbatim>\<open>https://a.com\<close>,
  and for a host that contains the separator. Of the key \<^verbatim>\<open>a\<close>, separator, \<^verbatim>\<open>b\<close> only
  \<^verbatim>\<open>a\<close> comes back, since the second piece ends at the next separator. The empty key
  gives the origin key, which has no second piece. The unpaired surrogate U+D800 is
  stored as U+FFFD and comes back as U+FFFD. And with the host \<^verbatim>\<open>[a\<close>, separator,
  \<^verbatim>\<open>b]\<close> the second piece of the key \<^verbatim>\<open>theme\<close> is \<^verbatim>\<open>b]\<close>, a part of the host.
\<close>

theorem actualKey_roundtrip_counterexample:
  "map_sum id actualKey
     (keyFromUrl two_sites (str ''https://a.com'') (Some (str ''a'' @ hostKeySeparator @ str ''b'')) None)
     = Inr (Some (str ''a''))
   \<and> map_sum id actualKey (keyFromUrl two_sites (str ''https://a.com'') (Some []) None) = Inr None
   \<and> map_sum id actualKey (keyFromUrl two_sites (str ''https://a.com'') (Some [0xD800]) None)
     = Inr (Some [0xFFFD])
   \<and> map_sum id actualKey
       (keyFromUrl bracket_hosts (str ''http://[a'' @ [0, 1] @ str ''b]/'') (Some (str ''theme'')) None)
     = Inr (Some (str ''b]''))"
  unfolding keyFromUrl_def two_sites_a bracket_hosts_simps Let_def
  by (simp add: truthy_def codec_eval)

section \<open>Keys without the separator\<close>

lemma decode1_cases:
  assumes "decode1 b bs = (c, k)"
  shows "(unat b < 0x80 \<and> c = unat b \<and> k = 0) \<or> (0x80 \<le> unat b \<and> 0x80 \<le> c \<and> c < 0x110000)"
proof (cases "unat b < 0x80")
  case True
  with assms show ?thesis by (simp add: decode1_def)
next
  case False
  have "0x80 \<le> c \<and> c < 0x110000"
    using assms False decode2_bounds [of "unat b" bs c k] decode3_bounds [of "unat b" bs c k]
      decode4_bounds [of "unat b" bs c k]
    by (auto simp: decode1_def Let_def split: if_splits)
  with False show ?thesis by simp
qed

lemma utf16_units_gt1:
  assumes "0x80 \<le> c" "c < 0x110000"
  shows "utf16_units c \<noteq> [] \<and> (\<forall>u\<in>set (utf16_units c). 1 < u)"
proof (cases "c < 0x10000")
  case True
  then have "unat (unit_of c) = c" by (intro unat_unit_of) simp
  with True assms show ?thesis by (simp add: utf16_units_def unit_gt1)
next
  case False
  define x where "x = (c - 0x10000) div 0x400"
  define y where "y = (c - 0x10000) mod 0x400"
  have "x < 0x400" unfolding x_def using assms(2) by (intro less_mult_imp_div_less) simp
  then have x: "unat (unit_of (0xD800 + x)) = 0xD800 + x" by (intro unat_unit_of) simp
  have "y < 0x400" by (simp add: y_def)
  then have y: "unat (unit_of (0xDC00 + y)) = 0xDC00 + y" by (intro unat_unit_of) simp
  show ?thesis
    using False x y by (simp add: utf16_units_def unit_gt1 flip: x_def y_def)
qed

lemma toString_head_small:
  assumes "toString bs = u # us" "u \<le> 1"
  shows "\<exists>b bs'. bs = b # bs' \<and> unat b = unat u \<and> us = toString bs'"
proof (cases bs)
  case Nil
  with assms show ?thesis by (simp add: toString_Nil)
next
  case (Cons b bs')
  obtain c k where d: "decode1 b bs' = (c, k)" by (cases "decode1 b bs'")
  have ts: "utf16_units c @ toString (drop k bs') = u # us"
    using assms(1) Cons d by (simp add: toString_Cons)
  from decode1_cases [OF d] show ?thesis
  proof
    assume a: "unat b < 0x80 \<and> c = unat b \<and> k = 0"
    then have "utf16_units c = [unit_of (unat b)]" by (simp add: utf16_units_def)
    with ts a have "u = unit_of (unat b)" "us = toString bs'" by simp_all
    moreover have "unat (unit_of (unat b)) = unat b" using a by (intro unat_unit_of) simp
    ultimately show ?thesis using Cons by simp
  next
    assume "0x80 \<le> unat b \<and> 0x80 \<le> c \<and> c < 0x110000"
    then have g: "utf16_units c \<noteq> [] \<and> (\<forall>u\<in>set (utf16_units c). 1 < u)"
      by (intro utf16_units_gt1) simp_all
    then obtain w ws where "utf16_units c = w # ws" by (cases "utf16_units c") auto
    with ts g have "1 < u" by auto
    with assms(2) show ?thesis by simp
  qed
qed

lemma includes_js_drop: "includes_js (drop k s) sep \<Longrightarrow> includes_js s sep"
proof (induction s arbitrary: k)
  case Nil
  then show ?case by simp
next
  case (Cons x s)
  then show ?case by (cases k) auto
qed

lemma includes_js_skip_gt1:
  "\<forall>u\<in>set a. (1 :: code_unit) < u \<Longrightarrow> includes_js (a @ s) hostKeySeparator \<Longrightarrow>
   includes_js s hostKeySeparator"
  by (induction a) (auto simp: hostKeySeparator_def)

lemma byte_eq_unat:
  assumes "unat (b :: byte) = unat (u :: code_unit)"
  shows "u = 0 \<Longrightarrow> b = 0" "u = 1 \<Longrightarrow> b = 1"
proof -
  have "b = of_nat (unat b)" by simp
  then have b: "b = of_nat (unat u)" using assms by simp
  show "u = 0 \<Longrightarrow> b = 0" using b by simp
  show "u = 1 \<Longrightarrow> b = 1" using b by simp
qed

lemma includes_js_toString:
  "includes_js (toString bs) hostKeySeparator \<Longrightarrow> includes_js bs [0, 1]"
proof (induction bs rule: utf8_decode.induct)
  case 1
  then show ?case by (simp add: toString_Nil hostKeySeparator_def)
next
  case (2 b bs)
  obtain c k where d: "decode1 b bs = (c, k)" by (cases "decode1 b bs")
  have ts: "toString (b # bs) = utf16_units c @ toString (drop k bs)"
    using d by (simp add: toString_Cons)
  have IH: "includes_js (toString (drop k bs)) hostKeySeparator \<Longrightarrow> includes_js (drop k bs) [0, 1]"
    using "2.IH" d by simp
  from decode1_cases [OF d] show ?case
  proof
    assume a: "unat b < 0x80 \<and> c = unat b \<and> k = 0"
    then have u: "utf16_units c = [unit_of (unat b)]" by (simp add: utf16_units_def)
    have ub: "unat (unit_of (unat b)) = unat b" using a by (intro unat_unit_of) simp
    have ts': "toString (b # bs) = unit_of (unat b) # toString bs"
      using ts u a by simp
    from 2(2) have "(unit_of (unat b) = 0 \<and> (\<exists>us. toString bs = 1 # us))
        \<or> includes_js (toString bs) hostKeySeparator"
      unfolding ts' by (cases "toString bs") (auto simp: hostKeySeparator_def)
    then show ?thesis
    proof
      assume "unit_of (unat b) = 0 \<and> (\<exists>us. toString bs = 1 # us)"
      then obtain us where h: "unit_of (unat b) = 0" "toString bs = 1 # us"
        by auto
      from toString_head_small [OF h(2)] obtain b' bs' where
        "bs = b' # bs'" "unat b' = unat (1 :: code_unit)" by auto
      moreover from this have "b' = 1" by (intro byte_eq_unat(2) [of b' 1]) simp_all
      moreover have "b = 0" using ub h(1) by (intro byte_eq_unat(1) [of b 0]) simp_all
      ultimately show ?thesis by simp
    next
      assume "includes_js (toString bs) hostKeySeparator"
      with IH a show ?thesis by simp
    qed
  next
    assume "0x80 \<le> unat b \<and> 0x80 \<le> c \<and> c < 0x110000"
    then have "\<forall>u\<in>set (utf16_units c). 1 < u"
      using utf16_units_gt1 [of c] by simp
    with 2(2) have "includes_js (toString (drop k bs)) hostKeySeparator"
      unfolding ts by (rule includes_js_skip_gt1 [rotated])
    then have "includes_js (drop k bs) [0, 1]" by (rule IH)
    then have "includes_js bs [0, 1]" by (rule includes_js_drop)
    then show ?thesis by simp
  qed
qed

lemma no_separator_no_key:
  "\<not> includes_js raw [0, 1] \<Longrightarrow> actualKey raw = None"
proof -
  assume "\<not> includes_js raw [0, 1]"
  then have "\<not> includes_js (toString raw) hostKeySeparator"
    using includes_js_toString [of raw] by blast
  then have "split (toString raw) hostKeySeparator = [toString raw]"
    by (rule split_no_sep)
  then show ?thesis by (simp add: actualKey_def)
qed

text \<open>
  C6, as the code has it. Of a raw store key that does not contain the two bytes
  \<^verbatim>\<open>00 01\<close>, the split has one piece, and the application key is \<^verbatim>\<open>undefined\<close>:
  a result, not an error.
\<close>

theorem actualKey_without_separator:
  "\<not> includes_js raw [0, 1] \<Longrightarrow> actualKey raw = None"
  by (rule no_separator_no_key)

text \<open>C6 as amended, at the origin key of \<^verbatim>\<open>https://a.com\<close>.\<close>

theorem actualKey_without_separator_witness:
  "actualKey (Buffer_from (str ''_https://a.com'')) = None"
  using actualKey_without_separator [of "Buffer_from (str ''_https://a.com'')"]
  by (simp add: str_def is_high_def is_low_def utf8_bytes_def byte_of_def)

section \<open>The sample stores, evaluated\<close>

lemma keys_sample:
  "keyFromUrl two_sites (str ''https://a.com'') None None
     = Inr [95, 104, 116, 116, 112, 115, 58, 47, 47, 97, 46, 99, 111, 109]"
  "keyFromUrl two_sites (str ''https://a.com'') (Some [1]) (Some [])
     = Inr [95, 104, 116, 116, 112, 115, 58, 47, 47, 97, 46, 99, 111, 109, 1]"
  unfolding keyFromUrl_def two_sites_a Let_def
  by (simp_all add: truthy_def codec_eval)

lemma entry_keys_sample:
  "keyFromUrl two_sites (str ''https://a.com'') (Some (str ''theme'')) None
     = Inr [95, 104, 116, 116, 112, 115, 58, 47, 47, 97, 46, 99, 111, 109, 0, 1, 116, 104, 101, 109, 101]"
  "keyFromUrl two_sites (str ''https://a.com'') (Some (str ''missing'')) None
     = Inr [95, 104, 116, 116, 112, 115, 58, 47, 47, 97, 46, 99, 111, 109, 0, 1, 109, 105, 115, 115, 105, 110, 103]"
  "keyFromUrl two_sites (str ''https://a.com'') (Some (str ''e'')) None
     = Inr [95, 104, 116, 116, 112, 115, 58, 47, 47, 97, 46, 99, 111, 109, 0, 1, 101]"
  unfolding keyFromUrl_def two_sites_a Let_def
  by (simp_all add: truthy_def codec_eval)

lemma entries_sample:
  "entries sample_db =
    [([95, 104, 116, 116, 112, 115, 58, 47, 47, 97, 46, 99, 111, 109], [0x01, 0x41]),
     ([95, 104, 116, 116, 112, 115, 58, 47, 47, 97, 46, 99, 111, 109, 0, 1, 108, 97, 110, 103], [0x01, 0x65, 0x6E]),
     ([95, 104, 116, 116, 112, 115, 58, 47, 47, 97, 46, 99, 111, 109, 0, 1, 116, 104, 101, 109, 101], [0x01, 0x64, 0x61, 0x72, 0x6B]),
     ([95, 104, 116, 116, 112, 115, 58, 47, 47, 98, 46, 99, 111, 109, 0, 1, 116, 104, 101, 109, 101], [0x01, 0x6C])]"
  by (simp add: sample_db_def codec_eval)

lemma sorted_sample: "sorted_rows (entries sample_db) = entries sample_db"
  unfolding entries_sample by (simp add: sorted_rows_def)

lemma rows_sample:
  "db_iterator sample_db [95, 104, 116, 116, 112, 115, 58, 47, 47, 97, 46, 99, 111, 109]
     [95, 104, 116, 116, 112, 115, 58, 47, 47, 97, 46, 99, 111, 109, 1]
   = map Inr (take 3 (entries sample_db))"
  unfolding db_iterator_def sorted_sample unfolding entries_sample
  by (simp add: sample_db_def in_scan_range_def)

lemma faults_sample:
  "get_error sample_db = None" "iterator_error sample_db = None" "next_error sample_db = None"
  "end_error sample_db = None"
  by (simp_all add: sample_db_def)

lemma readAll_sample:
  "\<exists>t. readAll (Inr sample_db) two_sites (str ''https://a.com'') Exhaust
   = ([\<lparr>item_key = None, item_value = str ''A''\<rparr>,
       \<lparr>item_key = Some (str ''lang''), item_value = str ''en''\<rparr>,
       \<lparr>item_key = Some (str ''theme''), item_value = str ''dark''\<rparr>], Done, t)"
  unfolding readAll_def keys_sample
  apply (simp add: rows_sample asyncIterable_def faults_sample)
  apply (simp add: entries_sample faults_sample)
  apply (simp add: codec_eval Let_def faults_sample)
  done



lemma entries_accent:
  "entries accent_db =
    [([95, 104, 116, 116, 112, 115, 58, 47, 47, 97, 46, 99, 111, 109], [0xC3, 0xA9, 0x41]),
     ([95, 104, 116, 116, 112, 115, 58, 47, 47, 97, 46, 99, 111, 109, 0, 1, 101], [0xC3, 0xA9, 0x41])]"
  by (simp add: accent_db_def codec_eval)

lemma sorted_accent: "sorted_rows (entries accent_db) = entries accent_db"
  unfolding entries_accent by (simp add: sorted_rows_def)

lemma rows_accent:
  "db_iterator accent_db [95, 104, 116, 116, 112, 115, 58, 47, 47, 97, 46, 99, 111, 109]
     [95, 104, 116, 116, 112, 115, 58, 47, 47, 97, 46, 99, 111, 109, 1]
   = map Inr (entries accent_db)"
  unfolding db_iterator_def sorted_accent unfolding entries_accent
  by (simp add: accent_db_def in_scan_range_def)

lemma faults_accent:
  "get_error accent_db = None" "iterator_error accent_db = None" "next_error accent_db = None"
  "end_error accent_db = None"
  by (simp_all add: accent_db_def)

lemma unpack_accent:
  "unpackValue [0xC3, 0xA9, 0x41] = str ''A''"
  "toString [0xA9, 0x41] = [0xFFFD, 0x41]"
  "toString [0xC3, 0xA9, 0x41] = [0xE9, 0x41]"
  by (simp_all add: codec_eval)

lemma readAll_accent:
  "\<exists>t. readAll (Inr accent_db) two_sites (str ''https://a.com'') Exhaust
   = ([\<lparr>item_key = None, item_value = str ''A''\<rparr>,
       \<lparr>item_key = Some (str ''e''), item_value = str ''A''\<rparr>], Done, t)"
  unfolding readAll_def keys_sample
  apply (simp add: rows_accent asyncIterable_def faults_accent)
  apply (simp add: entries_accent faults_accent)
  apply (simp add: codec_eval Let_def faults_accent)
  done

lemma read_accent:
  "read (Inr accent_db) two_sites (str ''https://a.com'') (str ''e'')
   = (Inr (str ''A''),
      [OpenDb, DbGet (Buffer_from (str ''_https://a.com'') @ [0, 1, 101]), DbClose])"
  unfolding read_def entry_keys_sample
  apply (simp add: db_get_def faults_accent entries_accent try_finally_close_def)
  apply (simp add: codec_eval)
  done

section \<open>Point lookup\<close>

lemma read_Inr:
  "parse url = Inr parsed \<Longrightarrow> truthy (host parsed) \<Longrightarrow>
   read (Inr db) parse url key
     = ((case db_get db (Buffer_from (origin parsed @ suffix_of (Some key) None)) of
           Inl e \<Rightarrow> Inl e | Inr v \<Rightarrow> Inr (unpackValue v)),
        [OpenDb, DbGet (Buffer_from (origin parsed @ suffix_of (Some key) None)), DbClose])"
  by (simp add: read_def keyFromUrl_host try_finally_close_def split: sum.splits)

lemma unpackValue_Cons_iff:
  "unpackValue (m # payload) = toString payload \<longleftrightarrow> \<not> continued m payload"
  using unpackValue_not_continued [of m payload] unpackValue_continued [of m payload]
  by blast

text \<open>
  C4 as stated fails at a record whose value is the three bytes \<^verbatim>\<open>C3 A9 41\<close>, here
  under the key \<^verbatim>\<open>e\<close> of \<^verbatim>\<open>https://a.com\<close>: \<^verbatim>\<open>read\<close> returns \<^verbatim>\<open>"A"\<close>, the text of the
  value without its first character, which took two bytes; the value with one byte
  stripped, \<^verbatim>\<open>A9 41\<close>, is the text U+FFFD, \<^verbatim>\<open>A\<close>.
\<close>

theorem read_point_lookup_counterexample:
  "map_of (entries accent_db) (Buffer_from (str ''_https://a.com'') @ [0, 1, 101])
     = Some [0xC3, 0xA9, 0x41]
   \<and> read (Inr accent_db) two_sites (str ''https://a.com'') (str ''e'')
     = (Inr (str ''A''),
        [OpenDb, DbGet (Buffer_from (str ''_https://a.com'') @ [0, 1, 101]), DbClose])
   \<and> toString [0xA9, 0x41] = [0xFFFD, 0x41]
   \<and> str ''A'' = [0x41]"
  unfolding read_accent
  by (simp add: entries_accent Buffer_from_origin_a unpack_accent(2)) (simp add: str_def)

text \<open>
  C4, as the code has it. For a URL with a host and a store that opens and whose \<^verbatim>\<open>get\<close>
  reports no other error, \<^verbatim>\<open>read(url, key)\<close> looks up the key
  \<^verbatim>\<open>keyFromUrl(url, key)\<close>. With no record under that key it fails with
  \<^verbatim>\<open>NotFoundError\<close>, which is not an error of the store being unavailable. With a
  record it returns the text of the value without its first code unit. That is the text
  of the value with its first byte stripped, unless the first byte starts a UTF-8 sequence
  of several bytes that the second byte continues, and only then; of a zero-length value
  it is the empty string.
\<close>

theorem read_point_lookup:
  assumes "parse url = Inr parsed" "truthy (host parsed)" "get_error db = None"
  shows "\<exists>k. keyFromUrl parse url (Some key) None = Inr k
    \<and> (map_of (entries db) k = None \<longrightarrow> fst (read (Inr db) parse url key) = Inl NotFoundError)
    \<and> (\<forall>v. map_of (entries db) k = Some v \<longrightarrow>
          fst (read (Inr db) parse url key) = Inr (slice1 (toString v)))
    \<and> (\<forall>m payload. map_of (entries db) k = Some (m # payload) \<longrightarrow>
          (fst (read (Inr db) parse url key) = Inr (toString payload)
             \<longleftrightarrow> \<not> continued m payload))
    \<and> (map_of (entries db) k = Some [] \<longrightarrow> fst (read (Inr db) parse url key) = Inr [])"
proof -
  define k where "k = Buffer_from (origin parsed @ suffix_of (Some key) None)"
  have key: "keyFromUrl parse url (Some key) None = Inr k"
    using assms(1,2) by (simp add: keyFromUrl_host k_def)
  have r: "fst (read (Inr db) parse url key)
      = (case map_of (entries db) k of None \<Rightarrow> Inl NotFoundError | Some v \<Rightarrow> Inr (unpackValue v))"
    using assms by (simp add: read_Inr db_get_def k_def split: option.splits)
  have 1: "map_of (entries db) k = None \<longrightarrow> fst (read (Inr db) parse url key) = Inl NotFoundError"
    by (simp add: r)
  have 2: "\<forall>v. map_of (entries db) k = Some v \<longrightarrow>
      fst (read (Inr db) parse url key) = Inr (slice1 (toString v))"
    by (simp add: r unpackValue_def)
  have 3: "\<forall>m payload. map_of (entries db) k = Some (m # payload) \<longrightarrow>
      (fst (read (Inr db) parse url key) = Inr (toString payload) \<longleftrightarrow> \<not> continued m payload)"
    by (simp add: r unpackValue_Cons_iff)
  have 4: "map_of (entries db) k = Some [] \<longrightarrow> fst (read (Inr db) parse url key) = Inr []"
    by (simp add: r unpackValue_def slice1_def toString_Nil)
  show ?thesis
    using key 1 2 3 4 by - (rule exI [of _ k], intro conjI, assumption+)
qed

text \<open>
  C4 as amended, at the sample store: \<^verbatim>\<open>read("https://a.com", "theme")\<close> is
  \<^verbatim>\<open>"dark"\<close>, and the key \<^verbatim>\<open>missing\<close> is not found.
\<close>

theorem read_point_lookup_witness:
  "fst (read (Inr sample_db) two_sites (str ''https://a.com'') (str ''theme'')) = Inr (str ''dark'')
   \<and> fst (read (Inr sample_db) two_sites (str ''https://a.com'') (str ''missing''))
       = Inl NotFoundError"
proof
  from read_point_lookup [of two_sites "str ''https://a.com''"
      "\<lparr>protocol = Some (str ''https:''), host = Some (str ''a.com'')\<rparr>" sample_db "str ''theme''",
      OF two_sites_a truthy_host_a faults_sample(1)]
  obtain k where k: "keyFromUrl two_sites (str ''https://a.com'') (Some (str ''theme'')) None = Inr k"
    and found: "\<forall>m payload. map_of (entries sample_db) k = Some (m # payload) \<longrightarrow>
      (fst (read (Inr sample_db) two_sites (str ''https://a.com'') (str ''theme''))
         = Inr (toString payload) \<longleftrightarrow> \<not> continued m payload)"
    by (elim exE conjE) (rule that, assumption+)
  have "k = [95, 104, 116, 116, 112, 115, 58, 47, 47, 97, 46, 99, 111, 109, 0, 1, 116, 104, 101, 109, 101]"
    using k by (simp add: entry_keys_sample(1))
  then have "map_of (entries sample_db) k = Some [0x01, 0x64, 0x61, 0x72, 0x6B]"
    by (simp add: entries_sample)
  moreover have "\<not> continued 0x01 [0x64, 0x61, 0x72, 0x6B]"
    by (simp add: continued_def Let_def)
  ultimately have "fst (read (Inr sample_db) two_sites (str ''https://a.com'') (str ''theme''))
      = Inr (toString [0x64, 0x61, 0x72, 0x6B])"
    using found by blast
  then show "fst (read (Inr sample_db) two_sites (str ''https://a.com'') (str ''theme''))
      = Inr (str ''dark'')"
    by (simp add: codec_eval)
next
  from read_point_lookup [of two_sites "str ''https://a.com''"
      "\<lparr>protocol = Some (str ''https:''), host = Some (str ''a.com'')\<rparr>" sample_db "str ''missing''",
      OF two_sites_a truthy_host_a faults_sample(1)]
  obtain k where k: "keyFromUrl two_sites (str ''https://a.com'') (Some (str ''missing'')) None = Inr k"
    and absent: "map_of (entries sample_db) k = None \<longrightarrow>
      fst (read (Inr sample_db) two_sites (str ''https://a.com'') (str ''missing''))
        = Inl NotFoundError"
    by (elim exE conjE) (rule that, assumption+)
  have "k = [95, 104, 116, 116, 112, 115, 58, 47, 47, 97, 46, 99, 111, 109, 0, 1, 109, 105, 115, 115, 105, 110, 103]"
    using k by (simp add: entry_keys_sample(2))
  then have "map_of (entries sample_db) k = None"
    by (simp add: entries_sample)
  with absent show "fst (read (Inr sample_db) two_sites (str ''https://a.com'') (str ''missing''))
      = Inl NotFoundError"
    by simp
qed

text \<open>
  C9. For a URL with a host, \<^verbatim>\<open>keyFromUrl(url, "")\<close> is the origin key, the same as
  \<^verbatim>\<open>keyFromUrl(url)\<close> with no key, and \<^verbatim>\<open>read(url, "")\<close> is the lookup of the
  origin key: its only \<^verbatim>\<open>get\<close> is of that key, and its result is what that lookup
  gives.
\<close>

theorem read_empty_key:
  assumes "parse url = Inr parsed" "truthy (host parsed)"
  shows "keyFromUrl parse url (Some []) None = Inr (Buffer_from (origin parsed))
    \<and> keyFromUrl parse url (Some []) None = keyFromUrl parse url None None
    \<and> read (Inr db) parse url []
        = ((case db_get db (Buffer_from (origin parsed)) of
              Inl e \<Rightarrow> Inl e | Inr v \<Rightarrow> Inr (unpackValue v)),
           [OpenDb, DbGet (Buffer_from (origin parsed)), DbClose])"
  using assms by (simp add: keyFromUrl_host read_Inr suffix_of_def)

text \<open>
  C9, at the sample store, which has the value \<^verbatim>\<open>01 41\<close> under the origin key of
  \<^verbatim>\<open>https://a.com\<close>.
\<close>

theorem read_empty_key_witness:
  "read (Inr sample_db) two_sites (str ''https://a.com'') []
     = (Inr (str ''A''), [OpenDb, DbGet (Buffer_from (str ''_https://a.com'')), DbClose])"
proof -
  have "db_get sample_db (Buffer_from (str ''_https://a.com'')) = Inr [0x01, 0x41]"
    by (simp add: db_get_def faults_sample entries_sample Buffer_from_origin_a)
  moreover have "unpackValue [0x01, 0x41] = str ''A''"
    by (simp add: codec_eval)
  ultimately show ?thesis
    using read_empty_key [of two_sites "str ''https://a.com''"
        "\<lparr>protocol = Some (str ''https:''), host = Some (str ''a.com'')\<rparr>" sample_db,
        OF two_sites_a truthy_host_a]
    unfolding origin_a by simp
qed

section \<open>The scan\<close>

text \<open>
  C6 as stated fails at the origin key of \<^verbatim>\<open>https://a.com\<close>, which has no separator:
  its application key is \<^verbatim>\<open>undefined\<close>, and the scan of the sample store, which has
  a record under that key, yields the record and ends without an error.
\<close>

theorem actualKey_no_error_counterexample:
  "\<not> includes_js (Buffer_from (str ''_https://a.com'')) [0, 1]
   \<and> actualKey (Buffer_from (str ''_https://a.com'')) = None
   \<and> (\<exists>t. readAll (Inr sample_db) two_sites (str ''https://a.com'') Exhaust
       = ([\<lparr>item_key = None, item_value = str ''A''\<rparr>,
           \<lparr>item_key = Some (str ''lang''), item_value = str ''en''\<rparr>,
           \<lparr>item_key = Some (str ''theme''), item_value = str ''dark''\<rparr>], Done, t))"
  using readAll_sample by (simp add: Buffer_from_origin_a) (simp add: codec_eval)

lemma for_await_all:
  "\<exists>t. for_await (map Inr rows) Exhaust = (map item_of rows, Done, t)"
proof (induction rows)
  case Nil
  show ?case by simp
next
  case (Cons r rows)
  then obtain t where "for_await (map Inr rows) Exhaust = (map item_of rows, Done, t)" by blast
  then show ?case by (cases r) (simp add: item_of_def Let_def)
qed

lemma bytewise_le_total: "bytewise_le a b \<or> bytewise_le b a"
  by (induction a b rule: bytewise_le.induct) (auto simp: neq_Nil_conv)

lemma bytewise_le_antisym: "bytewise_le a b \<Longrightarrow> bytewise_le b a \<Longrightarrow> a = b"
proof (induction a b rule: bytewise_le.induct)
  case (1 ys)
  then show ?case by (cases ys) simp_all
next
  case (2 x xs)
  then show ?case by simp
next
  case (3 x xs y ys)
  then show ?case by auto
qed

lemma bytewise_le_trans: "bytewise_le a b \<Longrightarrow> bytewise_le b c \<Longrightarrow> bytewise_le a c"
proof (induction a b arbitrary: c rule: bytewise_le.induct)
  case (1 ys)
  then show ?case by simp
next
  case (2 x xs)
  then show ?case by simp
next
  case (3 x xs y ys)
  then show ?case by (cases c) auto
qed

lemma key_before_trans:
  assumes "bytewise_le a b \<and> a \<noteq> b" "bytewise_le b c \<and> b \<noteq> c"
  shows "bytewise_le a c \<and> a \<noteq> c"
proof
  show "bytewise_le a c" using assms bytewise_le_trans by blast
  show "a \<noteq> c"
  proof
    assume "a = c"
    with assms have "bytewise_le b a" "bytewise_le a b" by simp_all
    then have "a = b" using bytewise_le_antisym by blast
    with assms show False by simp
  qed
qed

lemma set_put_row: "set (put_row r rs) \<subseteq> insert r (set rs)"
  by (induction rs) auto

lemma put_row_ascending:
  assumes "sorted_wrt (\<lambda>r r'. bytewise_le (fst r) (fst r') \<and> fst r \<noteq> fst r') rs"
  shows "sorted_wrt (\<lambda>r r'. bytewise_le (fst r) (fst r') \<and> fst r \<noteq> fst r') (put_row r rs)"
  using assms
proof (induction rs)
  case Nil
  show ?case by simp
next
  case (Cons r' rs)
  from Cons.prems have tail: "sorted_wrt (\<lambda>r r'. bytewise_le (fst r) (fst r') \<and> fst r \<noteq> fst r') rs"
    and head: "\<forall>x\<in>set rs. bytewise_le (fst r') (fst x) \<and> fst r' \<noteq> fst x"
    by simp_all
  show ?case
  proof (cases "fst r = fst r'")
    case True
    with tail head show ?thesis by simp
  next
    case ne: False
    show ?thesis
    proof (cases "bytewise_le (fst r) (fst r')")
      case True
      have "\<forall>x\<in>set rs. bytewise_le (fst r) (fst x) \<and> fst r \<noteq> fst x"
      proof
        fix x assume "x \<in> set rs"
        with head have "bytewise_le (fst r') (fst x) \<and> fst r' \<noteq> fst x" by simp
        with True ne show "bytewise_le (fst r) (fst x) \<and> fst r \<noteq> fst x"
          by (intro key_before_trans [of "fst r" "fst r'" "fst x"]) simp_all
      qed
      with True ne Cons.prems show ?thesis by simp
    next
      case False
      then have le: "bytewise_le (fst r') (fst r)" using bytewise_le_total by blast
      have "\<forall>x\<in>set (put_row r rs). bytewise_le (fst r') (fst x) \<and> fst r' \<noteq> fst x"
      proof
        fix x assume "x \<in> set (put_row r rs)"
        then have "x = r \<or> x \<in> set rs" using set_put_row [of r rs] by auto
        with le ne head show "bytewise_le (fst r') (fst x) \<and> fst r' \<noteq> fst x" by auto
      qed
      with False ne Cons.IH [OF tail] show ?thesis by simp
    qed
  qed
qed

lemma sorted_rows_ascending:
  "sorted_wrt (\<lambda>r r'. bytewise_le (fst r) (fst r') \<and> fst r \<noteq> fst r') (sorted_rows es)"
  unfolding sorted_rows_def by (induction es) (simp_all add: put_row_ascending)

lemma map_of_put_row: "map_of (put_row r rs) = (map_of rs)(fst r \<mapsto> snd r)"
proof (induction rs)
  case Nil
  show ?case by simp
next
  case (Cons r' rs)
  show ?case
  proof (cases "fst r = fst r'")
    case True
    then show ?thesis by (auto simp: fun_eq_iff)
  next
    case False
    then show ?thesis using Cons.IH by (auto simp: fun_upd_twist)
  qed
qed

lemma map_of_sorted_rows: "map_of (sorted_rows es) = map_of es"
  unfolding sorted_rows_def by (induction es) (simp_all add: map_of_put_row)

lemma first_row_of_scan:
  assumes "map_of es lo = Some v" "bytewise_le lo hi"
  shows "filter (\<lambda>(k, v). in_scan_range lo hi k) (sorted_rows es) \<noteq> []
    \<and> hd (filter (\<lambda>(k, v). in_scan_range lo hi k) (sorted_rows es)) = (lo, v)"
proof -
  define rows where "rows = filter (\<lambda>(k, v). in_scan_range lo hi k) (sorted_rows es)"
  have "map_of (sorted_rows es) lo = Some v" using assms(1) by (simp add: map_of_sorted_rows)
  then have "(lo, v) \<in> set (sorted_rows es)" by (rule map_of_SomeD)
  moreover have "in_scan_range lo hi lo" using assms(2) by (simp add: in_scan_range_def bytewise_le_refl)
  ultimately have mem: "(lo, v) \<in> set rows" by (simp add: rows_def)
  then obtain h tl where rows: "rows = h # tl" by (cases rows) auto
  have asc: "sorted_wrt (\<lambda>r r'. bytewise_le (fst r) (fst r') \<and> fst r \<noteq> fst r') rows"
    unfolding rows_def by (intro sorted_wrt_filter sorted_rows_ascending)
  have "h \<in> set rows" using rows by simp
  then have "in_scan_range lo hi (fst h)" by (auto simp: rows_def)
  then have lo_h: "bytewise_le lo (fst h)" by (simp add: in_scan_range_def)
  have "h = (lo, v)"
  proof (rule ccontr)
    assume "h \<noteq> (lo, v)"
    with mem rows have "(lo, v) \<in> set tl" by auto
    with asc rows have "bytewise_le (fst h) lo \<and> fst h \<noteq> lo" by auto
    with lo_h show False using bytewise_le_antisym by blast
  qed
  with rows show ?thesis by (simp add: rows_def)
qed

text \<open>
  C8 as stated fails at a store with the three bytes \<^verbatim>\<open>C3 A9 41\<close> under the origin key
  of \<^verbatim>\<open>https://a.com\<close>: the scan yields the record with an \<^verbatim>\<open>undefined\<close> key, and its
  value is \<^verbatim>\<open>"A"\<close>, the text of the value without its first character, which took two
  bytes; the value with one byte stripped, \<^verbatim>\<open>A9 41\<close>, is the text U+FFFD, \<^verbatim>\<open>A\<close>.
  It fails also for the host \<^verbatim>\<open>[a\<close>, separator, \<^verbatim>\<open>b]\<close>: the application key of its
  origin key is not \<^verbatim>\<open>undefined\<close> but \<^verbatim>\<open>b]\<close>, a part of the host.
\<close>

theorem readAll_lower_bound_counterexample:
  "map_of (entries accent_db) (Buffer_from (str ''_https://a.com'')) = Some [0xC3, 0xA9, 0x41]
   \<and> fst (readAll (Inr accent_db) two_sites (str ''https://a.com'') Exhaust)
       = [\<lparr>item_key = None, item_value = str ''A''\<rparr>,
          \<lparr>item_key = Some (str ''e''), item_value = str ''A''\<rparr>]
   \<and> fst (snd (readAll (Inr accent_db) two_sites (str ''https://a.com'') Exhaust)) = Done
   \<and> toString [0xA9, 0x41] = [0xFFFD, 0x41]
   \<and> str ''A'' = [0x41]
   \<and> map_sum id actualKey
       (keyFromUrl bracket_hosts (str ''http://[a'' @ [0, 1] @ str ''b]/'') None None)
     = Inr (Some (str ''b]''))"
proof -
  have "map_sum id actualKey
       (keyFromUrl bracket_hosts (str ''http://[a'' @ [0, 1] @ str ''b]/'') None None)
     = Inr (Some (str ''b]''))"
    unfolding keyFromUrl_def bracket_hosts_simps Let_def
    by (simp add: truthy_def codec_eval)
  moreover obtain t where "readAll (Inr accent_db) two_sites (str ''https://a.com'') Exhaust
       = ([\<lparr>item_key = None, item_value = str ''A''\<rparr>,
           \<lparr>item_key = Some (str ''e''), item_value = str ''A''\<rparr>], Done, t)"
    using readAll_accent by blast
  moreover have "str ''A'' = [0x41]" by (simp add: str_def)
  ultimately show ?thesis
    by (simp add: entries_accent Buffer_from_origin_a unpack_accent(2))
qed

text \<open>
  C8, as the code has it. For a URL with a host whose origin key has no separator, and a
  store that opens and reports no error: if the store has a record under the origin key
  itself, \<^verbatim>\<open>readAll\<close> scans from that key inclusive, ends without an error, and the first
  item it yields is the one of that record: its key is \<^verbatim>\<open>undefined\<close>, and its value is
  the text of the stored value without its first code unit. That is the text of the
  stored value with its first byte stripped, unless the first byte starts a UTF-8 sequence
  of several bytes that the second byte continues, and only then.
\<close>

theorem readAll_includes_lower_bound:
  assumes "parse url = Inr parsed" "truthy (host parsed)"
    and "\<not> includes_js (Buffer_from (origin parsed)) [0, 1]"
    and "map_of (entries db) (Buffer_from (origin parsed)) = Some v"
    and "iterator_error db = None" "next_error db = None" "end_error db = None"
  shows "\<exists>items t. readAll (Inr db) parse url Exhaust = (items, Done, t)
    \<and> items \<noteq> []
    \<and> hd items = \<lparr>item_key = None, item_value = slice1 (toString v)\<rparr>
    \<and> (\<forall>m payload. v = m # payload \<longrightarrow>
          (item_value (hd items) = toString payload \<longleftrightarrow> \<not> continued m payload))
    \<and> DbIterator (Buffer_from (origin parsed)) (Buffer_from (origin parsed) @ [1]) \<in> set t"
proof -
  define lo where "lo = Buffer_from (origin parsed)"
  define rows where "rows = filter (\<lambda>(k, v). in_scan_range lo (lo @ [1]) k) (sorted_rows (entries db))"
  have k1: "keyFromUrl parse url None None = Inr lo"
    using assms(1,2) by (simp add: keyFromUrl_host suffix_of_def lo_def)
  have k2: "keyFromUrl parse url (Some [1]) (Some []) = Inr (lo @ [1])"
    using assms(1,2) by (simp add: keyFromUrl_host suffix_of_def lo_def Buffer_from_snoc1)
  have it: "db_iterator db lo (lo @ [1]) = map Inr rows"
    using assms(6) by (simp add: db_iterator_def rows_def)
  obtain t where t: "for_await (map Inr rows) Exhaust = (map item_of rows, Done, t)"
    using for_await_all by blast
  have run: "readAll (Inr db) parse url Exhaust
      = (map item_of rows, Done, OpenDb # (DbIterator lo (lo @ [1]) # t @ [IteratorEnd]) @ [DbClose])"
    using assms(5,7) by (simp add: readAll_def k1 k2 it asyncIterable_def t)
  have first: "rows \<noteq> [] \<and> hd rows = (lo, v)"
    unfolding rows_def using assms(4)
    by (intro first_row_of_scan) (simp_all add: lo_def bytewise_le_append)
  then have hd: "hd (map item_of rows) = item_of (lo, v)" by (simp add: hd_map)
  have item: "item_of (lo, v) = \<lparr>item_key = None, item_value = slice1 (toString v)\<rparr>"
    using assms(3) by (simp add: item_of_def no_separator_no_key lo_def unpackValue_def)
  have strip: "\<forall>m payload. v = m # payload \<longrightarrow>
      (slice1 (toString v) = toString payload \<longleftrightarrow> \<not> continued m payload)"
    using unpackValue_Cons_iff by (simp add: unpackValue_def)
  have hd': "hd (map item_of rows) = \<lparr>item_key = None, item_value = slice1 (toString v)\<rparr>"
    using hd item by simp
  have ne: "map item_of rows \<noteq> []" using first by simp
  show ?thesis
    unfolding run using ne strip by (simp add: hd' lo_def)
qed

text \<open>C8 as amended, at the sample store and \<^verbatim>\<open>https://a.com\<close>.\<close>

theorem readAll_includes_lower_bound_witness:
  "\<exists>items t. readAll (Inr sample_db) two_sites (str ''https://a.com'') Exhaust = (items, Done, t)
     \<and> items \<noteq> []
     \<and> hd items = \<lparr>item_key = None, item_value = str ''A''\<rparr>
     \<and> DbIterator (Buffer_from (str ''_https://a.com'')) (Buffer_from (str ''_https://a.com'') @ [1])
         \<in> set t"
proof -
  have "\<not> includes_js (Buffer_from (origin \<lparr>protocol = Some (str ''https:''), host = Some (str ''a.com'')\<rparr>)) [0, 1]"
    unfolding origin_a Buffer_from_origin_a by simp
  moreover have "map_of (entries sample_db)
      (Buffer_from (origin \<lparr>protocol = Some (str ''https:''), host = Some (str ''a.com'')\<rparr>))
      = Some [0x01, 0x41]"
    unfolding origin_a Buffer_from_origin_a by (simp add: entries_sample)
  moreover have "slice1 (toString [0x01, 0x41]) = str ''A''"
    by (simp add: codec_eval)
  ultimately show ?thesis
    using readAll_includes_lower_bound [of two_sites "str ''https://a.com''"
        "\<lparr>protocol = Some (str ''https:''), host = Some (str ''a.com'')\<rparr>" sample_db "[0x01, 0x41]",
        OF two_sites_a truthy_host_a _ _ faults_sample(2,3,4)]
    unfolding origin_a by auto
qed

section \<open>Release of the store handle\<close>
















end
